theory Spec2Isabelle
  imports Main "HOL-Library.Word"
begin

section \<open>Statistics (cache.go, lines 20-42)\<close>

text \<open>
  The fields of \<open>Stats\<close> are Go \<open>int64\<close> values: 64-bit words, whose \<open>+\<close> and \<open>-\<close>
  wrap around as Go's do; \<open>sint\<close> reads a word as the signed number Go prints.
\<close>

type_synonym int64 = "64 word"

record Stats =
  Capacity :: int64
  Count :: int64
  Sets :: int64
  Gets :: int64
  Hits :: int64
  Misses :: int64
  Evictions :: int64

definition Delta :: "Stats \<Rightarrow> Stats \<Rightarrow> Stats" where
  "Delta stats previous =
     \<lparr>Capacity = Capacity stats,
      Count = Count stats,
      Sets = Sets stats - Sets previous,
      Gets = Gets stats - Gets previous,
      Hits = Hits stats - Hits previous,
      Misses = Misses stats - Misses previous,
      Evictions = Evictions stats - Evictions previous\<rparr>"

section \<open>The data model (cache.go, lines 44-114)\<close>

text \<open>
  Times are instants on a nanosecond time line and durations are numbers of nanoseconds,
  both integers: \<open>t.Add d\<close> is \<open>t + d\<close>. The clock is an input of every operation
  that reads it. Go's \<open>Duration\<close> is an \<open>int64\<close>, and the difference of two instants
  saturates at its bounds: \<open>time.Since t\<close> at the instant \<open>now\<close> is \<open>now - t\<close>
  when that fits an \<open>int64\<close>, the largest \<open>Duration\<close> (about 292 years) when it is
  more, and the smallest when it is less. \<open>Since\<close> below is that function.

  Every public operation holds the cache's lock for the whole of its effect
  (\<open>SetMaxAge\<close> and \<open>SetMinAge\<close> validate before they take it), so a program sees
  the operations one after the other: the model is sequential, and each operation is a
  function from the cache before to its result and the cache after.
\<close>

type_synonym Time = int
type_synonym Duration = int

definition maxDuration :: Duration where
  "maxDuration = 2 ^ 63 - 1"

definition minDuration :: Duration where
  "minDuration = - (2 ^ 63)"

definition Since :: "Time \<Rightarrow> Time \<Rightarrow> Duration" where
  "Since now t =
     (let d = now - t
      in if d > maxDuration then maxDuration
         else if d < minDuration then minDuration
         else d)"

datatype ExpirationType = PassiveExpration | ActiveExpiration

text \<open>
  A callback field is a Go function value or \<open>nil\<close>. The model keeps whether it is set
  (\<open>True\<close>: not \<open>nil\<close>) and records every invocation, with its arguments, in the
  order made, in the field \<open>calls\<close> of the cache. What a callback does is its caller's
  business; one that calls back into the cache would wait for the lock its own caller
  holds, and is outside the model.

  The fields of \<open>Config\<close> carry the prefix \<open>cfg\<close> (\<open>Capacity\<close> is a field of
  \<open>Stats\<close> too), and the field \<open>value\<close> of an entry is \<open>val\<close>.
\<close>

record Config =
  cfgCapacity :: int
  cfgMaxAge :: Duration
  cfgMinAge :: Duration
  cfgExpirationType :: ExpirationType
  cfgExpirationInterval :: Duration
  cfgOnEviction :: bool
  cfgOnExpiration :: bool

record ('k, 'v) cacheEntry =
  key :: 'k
  val :: 'v
  timestamp :: Time

datatype ('k, 'v) call = EvictionCall 'k 'v | ExpirationCall 'k 'v

text \<open>
  \<open>items\<close> is the Go map from keys to pointers to list elements, \<open>evictionList\<close> the
  doubly linked list, front first, as the sequence of the addresses of its elements.
  \<open>elems\<close> is the memory the pointers point into: at the address of an element, the
  \<open>cacheEntry\<close> that the element's \<open>Value\<close> points to (an element and its entry are
  allocated together and never separated, so they share a cell). \<open>nextElem\<close> is the
  next address the allocator hands out. An address with no cell stands for an element
  whose \<open>Value\<close> is not a \<open>*cacheEntry\<close>: the type assertion
  \<open>element.Value.(*cacheEntry[K, V])\<close> panics there.
\<close>

record ('k, 'v) Cache =
  capacity :: int
  minAge :: Duration
  maxAge :: Duration
  expirationType :: ExpirationType
  expirationInterval :: Duration
  onEviction :: bool
  onExpiration :: bool
  sets :: int64
  gets :: int64
  hits :: int64
  misses :: int64
  evictions :: int64
  items :: "'k \<rightharpoonup> nat"
  evictionList :: "nat list"
  elems :: "nat \<rightharpoonup> ('k, 'v) cacheEntry"
  nextElem :: nat
  calls :: "('k, 'v) call list"

text \<open>
  The panics: the four of \<open>New\<close>, named after their messages, a failed type assertion
  and an index out of range. \<open>error\<close> is the value \<open>errors.New\<close> builds.
\<close>

datatype panic =
  PositiveCapacity | NonNegativeMaxAge | NonNegativeMinAge | MinAgeAboveMaxAge
  | TypeAssertion | IndexOutOfRange

datatype error = Error string

subsection \<open>The operations of container/list that the cache calls\<close>

text \<open>
  The list is Go's standard \<open>container/list\<close>; these are its documented operations
  on the sequence of element addresses. \<open>MoveToFront\<close> and \<open>Remove\<close> leave the
  list alone when the element is not in it.
\<close>

definition list_PushFront :: "nat \<Rightarrow> nat list \<Rightarrow> nat list" where
  "list_PushFront e l = e # l"

definition list_MoveToFront :: "nat \<Rightarrow> nat list \<Rightarrow> nat list" where
  "list_MoveToFront e l = (if e \<in> set l then e # remove1 e l else l)"

definition list_Remove :: "nat \<Rightarrow> nat list \<Rightarrow> nat list" where
  "list_Remove e l = (if e \<in> set l then remove1 e l else l)"

definition list_Back :: "nat list \<Rightarrow> nat option" where
  "list_Back l = (if l = [] then None else Some (last l))"

definition list_Len :: "nat list \<Rightarrow> int" where
  "list_Len l = int (length l)"

definition list_Init :: "nat list" where
  "list_Init = []"

section \<open>Construction (cache.go, lines 120-171)\<close>

text \<open>
  \<open>New\<close> panics on an invalid configuration. The goroutine it starts for
  \<open>ActiveExpiration\<close> runs beside the caller and is not part of this sequential model.
\<close>

definition New :: "Config \<Rightarrow> panic + ('k, 'v) Cache" where
  "New config =
     (if cfgCapacity config \<le> 0 then Inl PositiveCapacity
      else if cfgMaxAge config < 0 then Inl NonNegativeMaxAge
      else if cfgMinAge config < 0 then Inl NonNegativeMinAge
      else if cfgMinAge config > 0 \<and> cfgMinAge config > cfgMaxAge config
        then Inl MinAgeAboveMaxAge
      else
        let minAge0 = (if cfgMinAge config = 0 then cfgMaxAge config else cfgMinAge config);
            interval = (if cfgExpirationInterval config \<le> 0 then cfgMaxAge config
                        else cfgExpirationInterval config)
        in Inr \<lparr>capacity = cfgCapacity config,
                minAge = minAge0,
                maxAge = cfgMaxAge config,
                expirationType = cfgExpirationType config,
                expirationInterval = interval,
                onEviction = cfgOnEviction config,
                onExpiration = cfgOnExpiration config,
                sets = 0, gets = 0, hits = 0, misses = 0, evictions = 0,
                items = Map.empty,
                evictionList = list_Init,
                elems = Map.empty,
                nextElem = 0,
                calls = []\<rparr>)"

section \<open>Internal helpers (cache.go, lines 444-475)\<close>

definition invoke :: "bool \<Rightarrow> ('k, 'v) call \<Rightarrow> ('k, 'v) Cache \<Rightarrow> ('k, 'v) Cache" where
  "invoke callback cl c = (if callback then c\<lparr>calls := calls c @ [cl]\<rparr> else c)"

definition deleteElement ::
  "nat \<Rightarrow> ('k, 'v) Cache \<Rightarrow> panic + (('k, 'v) cacheEntry \<times> ('k, 'v) Cache)" where
  "deleteElement element c =
     (let c1 = c\<lparr>evictionList := list_Remove element (evictionList c)\<rparr>
      in case elems c1 element of
           None \<Rightarrow> Inl TypeAssertion
         | Some entry \<Rightarrow> Inr (entry, c1\<lparr>items := (items c1)(key entry := None)\<rparr>))"

definition evictOldest :: "('k, 'v) Cache \<Rightarrow> panic + (bool \<times> ('k, 'v) Cache)" where
  "evictOldest c =
     (case list_Back (evictionList c) of
        None \<Rightarrow> Inr (False, c)
      | Some element \<Rightarrow>
          (case deleteElement element (c\<lparr>evictions := evictions c + 1\<rparr>) of
             Inl p \<Rightarrow> Inl p
           | Inr (entry, c1) \<Rightarrow>
               Inr (True, invoke (onEviction c1) (EvictionCall (key entry) (val entry)) c1)))"

text \<open>
  \<open>Int63n\<close> is the answer of the cache's random generator at this call, as a function
  of the bound it is asked for; \<open>now\<close> is what \<open>time.Now()\<close> returns. The
  \<open>RandGenerator\<close> interface promises an answer \<open>r\<close> with \<open>0 \<le> r < n\<close> for a
  bound \<open>n > 0\<close>; the theorems that need the promise assume it of the answer. In a
  reachable cache the generator is only asked for a positive bound (lemma
  \<open>jitter_bound_positive\<close>).
\<close>

definition getTimestamp :: "Time \<Rightarrow> (int \<Rightarrow> int) \<Rightarrow> ('k, 'v) Cache \<Rightarrow> Time" where
  "getTimestamp now Int63n c =
     (if minAge c = maxAge c then now
      else let jitter = maxAge c - minAge c;
               randVal = Int63n jitter
           in now + (- randVal))"

section \<open>The public operations (cache.go, lines 175-422)\<close>

text \<open>
  Every operation takes the cache and returns its result with the cache after it, or
  the panic that stopped it. A Go result \<open>(value, found)\<close> is an option: \<open>Some v\<close> is
  \<open>(v, true)\<close> and \<open>None\<close> is \<open>(zero value, false)\<close>. A Go \<open>error\<close> result is an
  option too: \<open>None\<close> is \<open>nil\<close>.
\<close>

definition Set ::
  "'k \<Rightarrow> 'v \<Rightarrow> Time \<Rightarrow> (int \<Rightarrow> int) \<Rightarrow> ('k, 'v) Cache \<Rightarrow> panic + (bool \<times> ('k, 'v) Cache)" where
  "Set k v now Int63n c =
     (let c1 = c\<lparr>sets := sets c + 1\<rparr>;
          ts = getTimestamp now Int63n c1
      in case items c1 k of
           Some element \<Rightarrow>
             (let c2 = c1\<lparr>evictionList := list_MoveToFront element (evictionList c1)\<rparr>
              in case elems c2 element of
                   None \<Rightarrow> Inl TypeAssertion
                 | Some entry \<Rightarrow>
                     Inr (False,
                          c2\<lparr>elems := (elems c2)(element \<mapsto> entry\<lparr>val := v, timestamp := ts\<rparr>)\<rparr>))
         | None \<Rightarrow>
             (let entry = \<lparr>key = k, val = v, timestamp = ts\<rparr>;
                  element = nextElem c1;
                  c2 = c1\<lparr>elems := (elems c1)(element \<mapsto> entry),
                          nextElem := element + 1,
                          evictionList := list_PushFront element (evictionList c1)\<rparr>;
                  c3 = c2\<lparr>items := (items c2)(k \<mapsto> element)\<rparr>;
                  evict = (list_Len (evictionList c3) > capacity c3)
              in if evict
                 then (case evictOldest c3 of
                         Inl p \<Rightarrow> Inl p
                       | Inr (_, c4) \<Rightarrow> Inr (evict, c4))
                 else Inr (evict, c3)))"

definition Get ::
  "'k \<Rightarrow> Time \<Rightarrow> ('k, 'v) Cache \<Rightarrow> panic + ('v option \<times> ('k, 'v) Cache)" where
  "Get k now c =
     (let c1 = c\<lparr>gets := gets c + 1\<rparr>
      in case items c1 k of
           Some element \<Rightarrow>
             (case elems c1 element of
                None \<Rightarrow> Inl TypeAssertion
              | Some entry \<Rightarrow>
                  if maxAge c1 = 0 \<or> Since now (timestamp entry) \<le> maxAge c1
                  then Inr (Some (val entry),
                            c1\<lparr>evictionList := list_MoveToFront element (evictionList c1),
                               hits := hits c1 + 1\<rparr>)
                  else (case deleteElement element c1 of
                          Inl p \<Rightarrow> Inl p
                        | Inr (_, c2) \<Rightarrow>
                            (let c3 = c2\<lparr>misses := misses c2 + 1\<rparr>
                             in Inr (None,
                                     invoke (onExpiration c3)
                                       (ExpirationCall (key entry) (val entry)) c3))))
         | None \<Rightarrow> Inr (None, c1\<lparr>misses := misses c1 + 1\<rparr>))"

definition Has :: "'k \<Rightarrow> ('k, 'v) Cache \<Rightarrow> panic + (bool \<times> ('k, 'v) Cache)" where
  "Has k c = (case items c k of Some _ \<Rightarrow> Inr (True, c) | None \<Rightarrow> Inr (False, c))"

definition Peek :: "'k \<Rightarrow> ('k, 'v) Cache \<Rightarrow> panic + ('v option \<times> ('k, 'v) Cache)" where
  "Peek k c =
     (case items c k of
        Some element \<Rightarrow>
          (case elems c element of
             None \<Rightarrow> Inl TypeAssertion
           | Some entry \<Rightarrow> Inr (Some (val entry), c))
      | None \<Rightarrow> Inr (None, c))"

definition Remove :: "'k \<Rightarrow> ('k, 'v) Cache \<Rightarrow> panic + (bool \<times> ('k, 'v) Cache)" where
  "Remove k c =
     (case items c k of
        Some element \<Rightarrow>
          (case deleteElement element c of
             Inl p \<Rightarrow> Inl p
           | Inr (_, c1) \<Rightarrow> Inr (True, c1))
      | None \<Rightarrow> Inr (False, c))"

definition EvictOldest :: "('k, 'v) Cache \<Rightarrow> panic + (bool \<times> ('k, 'v) Cache)" where
  "EvictOldest c = evictOldest c"

definition Len :: "('k, 'v) Cache \<Rightarrow> int" where
  "Len c = list_Len (evictionList c)"

text \<open>
  \<open>Clear\<close> ranges over the map, in an order Go leaves open: \<open>ks\<close> is the order in
  which the range reaches the keys. A key deleted before the range reaches it is not
  produced, which is the lookup at the time of the visit.
\<close>

fun clearLoop :: "'k list \<Rightarrow> ('k, 'v) Cache \<Rightarrow> panic + ('k, 'v) Cache" where
  "clearLoop [] c = Inr c"
| "clearLoop (k # ks) c =
     (case items c k of
        None \<Rightarrow> clearLoop ks c
      | Some element \<Rightarrow>
          (case deleteElement element c of
             Inl p \<Rightarrow> Inl p
           | Inr (_, c1) \<Rightarrow> clearLoop ks c1))"

definition Clear :: "'k list \<Rightarrow> ('k, 'v) Cache \<Rightarrow> panic + (unit \<times> ('k, 'v) Cache)" where
  "Clear ks c =
     (case clearLoop ks c of
        Inl p \<Rightarrow> Inl p
      | Inr c1 \<Rightarrow> Inr ((), c1\<lparr>evictionList := list_Init\<rparr>))"

text \<open>
  \<open>OrderedKeys\<close> fills a slice of \<open>len(cache.items)\<close> slots walking the list from
  its back; writing past the slice panics, after the right-hand side (with its type
  assertion) has been evaluated. A slot is \<open>Some k\<close> once written; a slot the walk
  never reaches keeps the zero value of the key type, written \<open>None\<close>.
\<close>

definition OrderedKeys :: "('k, 'v) Cache \<Rightarrow> panic + ('k option list \<times> ('k, 'v) Cache)" where
  "OrderedKeys c =
     (let n = card (dom (items c));
          walk = rev (evictionList c)
      in if \<exists>element \<in> set (take (Suc n) walk). elems c element = None then Inl TypeAssertion
         else if length walk > n then Inl IndexOutOfRange
         else Inr (map (\<lambda>element. map_option key (elems c element)) walk
                     @ replicate (n - length walk) None, c))"

definition SetMaxAge :: "Duration \<Rightarrow> ('k, 'v) Cache \<Rightarrow> error option \<times> ('k, 'v) Cache" where
  "SetMaxAge d c =
     (if d < 0 then (Some (Error ''Must supply a zero or positive maxAge''), c)
      else if d < minAge c
        then (Some (Error ''Must supply a maxAge greater than or equal to minAge''), c)
      else (None, c\<lparr>maxAge := d\<rparr>))"

definition SetMinAge :: "Duration \<Rightarrow> ('k, 'v) Cache \<Rightarrow> error option \<times> ('k, 'v) Cache" where
  "SetMinAge d c =
     (if d < 0 then (Some (Error ''Must supply a zero or positive minAge''), c)
      else if d > maxAge c
        then (Some (Error ''Must supply a minAge lesser than or equal to maxAge''), c)
      else if d = 0 then (None, c\<lparr>minAge := maxAge c\<rparr>)
      else (None, c\<lparr>minAge := d\<rparr>))"

definition OnEviction :: "bool \<Rightarrow> ('k, 'v) Cache \<Rightarrow> ('k, 'v) Cache" where
  "OnEviction callback c = c\<lparr>onEviction := callback\<rparr>"

definition OnExpiration :: "bool \<Rightarrow> ('k, 'v) Cache \<Rightarrow> ('k, 'v) Cache" where
  "OnExpiration callback c = c\<lparr>onExpiration := callback\<rparr>"

text \<open>The method \<open>Stats()\<close>; the name \<open>Stats\<close> is the record's here.\<close>

definition GetStats :: "('k, 'v) Cache \<Rightarrow> Stats" where
  "GetStats c =
     \<lparr>Capacity = word_of_int (capacity c),
      Count = word_of_int (list_Len (evictionList c)),
      Sets = sets c,
      Gets = gets c,
      Hits = hits c,
      Misses = misses c,
      Evictions = evictions c\<rparr>"

text \<open>
  The loop of \<open>Resize\<close>: \<open>for i := 0; i < c-n; i++\<close>, left at the first eviction
  that removes nothing. \<open>d\<close> is \<open>c - n\<close>, the old capacity minus the new one.
\<close>

function resizeLoop :: "int \<Rightarrow> int \<Rightarrow> ('k, 'v) Cache \<Rightarrow> panic + ('k, 'v) Cache" where
  "resizeLoop i d c =
     (if i < d
      then (case evictOldest c of
              Inl p \<Rightarrow> Inl p
            | Inr (successful, c1) \<Rightarrow>
                if \<not> successful then Inr c1 else resizeLoop (i + 1) d c1)
      else Inr c)"
  by pat_completeness auto
termination
  by (relation "measure (\<lambda>(i, d, c). nat (d - i))") auto

definition Resize :: "int \<Rightarrow> ('k, 'v) Cache \<Rightarrow> panic + (error option \<times> ('k, 'v) Cache)" where
  "Resize n c =
     (if n \<le> 0 then Inr (Some (Error ''must supply a positive capacity to Resize''), c)
      else
        let c0 = capacity c;
            c1 = c\<lparr>capacity := n\<rparr>
        in case resizeLoop 0 (c0 - n) c1 of
             Inl p \<Rightarrow> Inl p
           | Inr c2 \<Rightarrow> Inr (None, c2))"

section \<open>The background sweep (cache.go, lines 424-442)\<close>

text \<open>
  The staleness test, as the sweep \<open>deleteExpired\<close> writes it (line 432):
  \<open>cache.maxAge > 0 && time.Since(entry.timestamp) > cache.maxAge\<close>.
\<close>

definition expired :: "Time \<Rightarrow> ('k, 'v) Cache \<Rightarrow> ('k, 'v) cacheEntry \<Rightarrow> bool" where
  "expired now c entry \<longleftrightarrow> maxAge c > 0 \<and> Since now (timestamp entry) > maxAge c"

text \<open>
  \<open>deleteExpired\<close> takes the keys and, for each of them, locks the cache, runs the
  step below and unlocks it. The goroutine that calls it runs beside the callers of the
  cache; between two of its steps any other operation may take the lock, so the model
  keeps the step for one key, with the clock it reads.
\<close>

definition deleteExpiredStep ::
  "'k \<Rightarrow> Time \<Rightarrow> ('k, 'v) Cache \<Rightarrow> panic + ('k, 'v) Cache" where
  "deleteExpiredStep k now c =
     (case items c k of
        None \<Rightarrow> Inr c
      | Some element \<Rightarrow>
          (case elems c element of
             None \<Rightarrow> Inl TypeAssertion
           | Some entry \<Rightarrow>
               if expired now c entry
               then (case deleteElement element c of
                       Inl p \<Rightarrow> Inl p
                     | Inr (_, c1) \<Rightarrow>
                         Inr (invoke (onExpiration c1)
                                (ExpirationCall (key entry) (val entry)) c1))
               else Inr c))"

section \<open>Consistency of the index and the recency list\<close>

text \<open>
  The keys stored in the entries of the recency list, front first.
\<close>

definition entryKeys :: "('k, 'v) Cache \<Rightarrow> 'k list" where
  "entryKeys c =
     List.map_filter (\<lambda>element. map_option key (elems c element)) (evictionList c)"

text \<open>
  \<open>index_ok\<close>: no element is in the list twice, every element of the list was
  allocated and holds an entry under whose key the index points back to that element,
  and the index has no other keys.
\<close>

definition index_ok :: "('k, 'v) Cache \<Rightarrow> bool" where
  "index_ok c \<longleftrightarrow>
     distinct (evictionList c)
     \<and> (\<forall>element \<in> set (evictionList c).
          element < nextElem c
          \<and> (case elems c element of
                None \<Rightarrow> False
              | Some entry \<Rightarrow> items c (key entry) = Some element))
     \<and> dom (items c) = set (entryKeys c)"

definition config_ok :: "('k, 'v) Cache \<Rightarrow> bool" where
  "config_ok c \<longleftrightarrow> 0 < capacity c \<and> 0 \<le> minAge c \<and> minAge c \<le> maxAge c"

definition cache_inv :: "('k, 'v) Cache \<Rightarrow> bool" where
  "cache_inv c \<longleftrightarrow> index_ok c \<and> config_ok c \<and> Len c \<le> capacity c"

text \<open>
  The states a program can reach: \<open>New\<close> returns the first one, and each public
  operation that changes the cache and returns leads to the next, as does each step of
  the background sweep. The clock and the random generator are free at every step; the
  order in which \<open>Clear\<close> ranges over the map is any enumeration of its keys.
\<close>

inductive reachable :: "('k, 'v) Cache \<Rightarrow> bool" where
  reach_New: "New config = Inr c \<Longrightarrow> reachable c"
| reach_Set: "reachable c \<Longrightarrow> Set k v now Int63n c = Inr (b, c1) \<Longrightarrow> reachable c1"
| reach_Get: "reachable c \<Longrightarrow> Get k now c = Inr (r, c1) \<Longrightarrow> reachable c1"
| reach_Remove: "reachable c \<Longrightarrow> Remove k c = Inr (b, c1) \<Longrightarrow> reachable c1"
| reach_EvictOldest: "reachable c \<Longrightarrow> EvictOldest c = Inr (b, c1) \<Longrightarrow> reachable c1"
| reach_Clear:
    "reachable c \<Longrightarrow> distinct ks \<Longrightarrow> set ks = dom (items c) \<Longrightarrow> Clear ks c = Inr (u, c1)
     \<Longrightarrow> reachable c1"
| reach_Resize: "reachable c \<Longrightarrow> Resize n c = Inr (err, c1) \<Longrightarrow> reachable c1"
| reach_SetMaxAge: "reachable c \<Longrightarrow> SetMaxAge d c = (err, c1) \<Longrightarrow> reachable c1"
| reach_SetMinAge: "reachable c \<Longrightarrow> SetMinAge d c = (err, c1) \<Longrightarrow> reachable c1"
| reach_OnEviction: "reachable c \<Longrightarrow> reachable (OnEviction callback c)"
| reach_OnExpiration: "reachable c \<Longrightarrow> reachable (OnExpiration callback c)"
| reach_sweep: "reachable c \<Longrightarrow> deleteExpiredStep k now c = Inr c1 \<Longrightarrow> reachable c1"

text \<open>A run of \<open>Set\<close> operations, each with its key, value, clock and generator.\<close>

fun setAll ::
  "('k \<times> 'v \<times> Time \<times> (int \<Rightarrow> int)) list \<Rightarrow> ('k, 'v) Cache \<Rightarrow> panic + ('k, 'v) Cache" where
  "setAll [] c = Inr c"
| "setAll ((k, v, now, Int63n) # rest) c =
     (case Set k v now Int63n c of
        Inl p \<Rightarrow> Inl p
      | Inr (_, c1) \<Rightarrow> setAll rest c1)"

section \<open>What a run of evictions leaves\<close>

text \<open>
  Two functions that say, without running the code, what evicting \<open>m\<close> times from the
  back of the list gives; the lemmas below show that \<open>evictOldest\<close> and the loop of
  \<open>Resize\<close> compute exactly this. \<open>evictedEntries c m\<close> are the entries of the last
  \<open>m\<close> elements of the list, the back one first.
\<close>

definition evictedEntries :: "('k, 'v) Cache \<Rightarrow> nat \<Rightarrow> ('k, 'v) cacheEntry list" where
  "evictedEntries c m =
     List.map_filter (elems c)
       (rev (drop (length (evictionList c) - m) (evictionList c)))"

definition evictBack :: "nat \<Rightarrow> ('k, 'v) Cache \<Rightarrow> ('k, 'v) Cache" where
  "evictBack m c =
     c\<lparr>evictions := evictions c + word_of_nat m,
       evictionList := take (length (evictionList c) - m) (evictionList c),
       items := fold (\<lambda>e m. m(key e := None)) (evictedEntries c m) (items c),
       calls := calls c @
         (if onEviction c
          then map (\<lambda>e. EvictionCall (key e) (val e)) (evictedEntries c m)
          else [])\<rparr>"

section \<open>Example configurations and caches\<close>

text \<open>
  Concrete inputs for the theorems below. \<open>cacheA0\<close> is what \<open>New configA\<close> returns
  and \<open>cacheA\<close> the same cache after \<open>Set(1, 7)\<close> at time 100 and \<open>Set(2, 8)\<close> at
  time 101; \<open>cacheB\<close> is what \<open>New configB\<close> returns; \<open>cacheC\<close> is a cache of
  capacity 5 after \<open>Set(1, 10)\<close>, \<open>Set(2, 20)\<close> and \<open>Set(3, 30)\<close>. \<open>configD\<close> has
  the largest \<open>MaxAge\<close> a \<open>Duration\<close> can hold and \<open>MinAge\<close> 1; \<open>cacheD0\<close> is
  what \<open>New configD\<close> returns and \<open>cacheD\<close> the same cache after \<open>Set(1, 7)\<close> at
  time 100, for which the generator, asked for the bound \<open>2 ^ 63 - 2\<close>, answers
  \<open>2 ^ 63 - 3\<close>.
\<close>

definition configA :: Config where
  "configA =
     \<lparr>cfgCapacity = 2, cfgMaxAge = 10, cfgMinAge = 0,
      cfgExpirationType = PassiveExpration, cfgExpirationInterval = 0,
      cfgOnEviction = True, cfgOnExpiration = True\<rparr>"

definition cacheA0 :: "(nat, nat) Cache" where
  "cacheA0 =
     \<lparr>capacity = 2, minAge = 10, maxAge = 10,
      expirationType = PassiveExpration, expirationInterval = 10,
      onEviction = True, onExpiration = True,
      sets = 0, gets = 0, hits = 0, misses = 0, evictions = 0,
      items = Map.empty,
      evictionList = [],
      elems = Map.empty,
      nextElem = 0,
      calls = []\<rparr>"

definition cacheA :: "(nat, nat) Cache" where
  "cacheA =
     \<lparr>capacity = 2, minAge = 10, maxAge = 10,
      expirationType = PassiveExpration, expirationInterval = 10,
      onEviction = True, onExpiration = True,
      sets = 2, gets = 0, hits = 0, misses = 0, evictions = 0,
      items = [1 \<mapsto> 0, 2 \<mapsto> 1],
      evictionList = [1, 0],
      elems = [0 \<mapsto> \<lparr>key = 1, val = 7, timestamp = 100\<rparr>,
               1 \<mapsto> \<lparr>key = 2, val = 8, timestamp = 101\<rparr>],
      nextElem = 2,
      calls = []\<rparr>"

definition configB :: Config where
  "configB =
     \<lparr>cfgCapacity = 2, cfgMaxAge = 10, cfgMinAge = 1,
      cfgExpirationType = PassiveExpration, cfgExpirationInterval = 0,
      cfgOnEviction = True, cfgOnExpiration = True\<rparr>"

definition cacheB :: "(nat, nat) Cache" where
  "cacheB =
     \<lparr>capacity = 2, minAge = 1, maxAge = 10,
      expirationType = PassiveExpration, expirationInterval = 10,
      onEviction = True, onExpiration = True,
      sets = 0, gets = 0, hits = 0, misses = 0, evictions = 0,
      items = Map.empty,
      evictionList = [],
      elems = Map.empty,
      nextElem = 0,
      calls = []\<rparr>"

definition configD :: Config where
  "configD =
     \<lparr>cfgCapacity = 2, cfgMaxAge = 2 ^ 63 - 1, cfgMinAge = 1,
      cfgExpirationType = PassiveExpration, cfgExpirationInterval = 0,
      cfgOnEviction = True, cfgOnExpiration = True\<rparr>"

definition cacheD0 :: "(nat, nat) Cache" where
  "cacheD0 =
     \<lparr>capacity = 2, minAge = 1, maxAge = 2 ^ 63 - 1,
      expirationType = PassiveExpration, expirationInterval = 2 ^ 63 - 1,
      onEviction = True, onExpiration = True,
      sets = 0, gets = 0, hits = 0, misses = 0, evictions = 0,
      items = Map.empty,
      evictionList = [],
      elems = Map.empty,
      nextElem = 0,
      calls = []\<rparr>"

definition cacheD :: "(nat, nat) Cache" where
  "cacheD =
     \<lparr>capacity = 2, minAge = 1, maxAge = 2 ^ 63 - 1,
      expirationType = PassiveExpration, expirationInterval = 2 ^ 63 - 1,
      onEviction = True, onExpiration = True,
      sets = 1, gets = 0, hits = 0, misses = 0, evictions = 0,
      items = [1 \<mapsto> 0],
      evictionList = [0],
      elems = [0 \<mapsto> \<lparr>key = 1, val = 7, timestamp = 103 - 2 ^ 63\<rparr>],
      nextElem = 1,
      calls = []\<rparr>"

definition configC :: Config where
  "configC =
     \<lparr>cfgCapacity = 5, cfgMaxAge = 0, cfgMinAge = 0,
      cfgExpirationType = PassiveExpration, cfgExpirationInterval = 0,
      cfgOnEviction = True, cfgOnExpiration = True\<rparr>"

definition cacheC :: "(nat, nat) Cache" where
  "cacheC =
     \<lparr>capacity = 5, minAge = 0, maxAge = 0,
      expirationType = PassiveExpration, expirationInterval = 0,
      onEviction = True, onExpiration = True,
      sets = 3, gets = 0, hits = 0, misses = 0, evictions = 0,
      items = [1 \<mapsto> 0, 2 \<mapsto> 1, 3 \<mapsto> 2],
      evictionList = [2, 1, 0],
      elems = [0 \<mapsto> \<lparr>key = 1, val = 10, timestamp = 0\<rparr>,
               1 \<mapsto> \<lparr>key = 2, val = 20, timestamp = 0\<rparr>,
               2 \<mapsto> \<lparr>key = 3, val = 30, timestamp = 0\<rparr>],
      nextElem = 3,
      calls = []\<rparr>"

section \<open>The index invariant, unfolded\<close>

lemma set_entryKeys:
  "set (entryKeys c) =
     {k. \<exists>a \<in> set (evictionList c). \<exists>e. elems c a = Some e \<and> key e = k}"
  by (force simp: entryKeys_def List.map_filter_def image_iff)

lemma index_ok_iff:
  "index_ok c \<longleftrightarrow>
     distinct (evictionList c)
     \<and> (\<forall>a \<in> set (evictionList c).
           a < nextElem c \<and> (\<exists>e. elems c a = Some e \<and> items c (key e) = Some a))
     \<and> (\<forall>k a. items c k = Some a \<longrightarrow>
           a \<in> set (evictionList c) \<and> (\<exists>e. elems c a = Some e \<and> key e = k))"
  (is "?L \<longleftrightarrow> ?R")
proof
  assume l: ?L
  then have d: "distinct (evictionList c)"
    and el: "\<And>a. a \<in> set (evictionList c) \<Longrightarrow>
               a < nextElem c \<and> (\<exists>e. elems c a = Some e \<and> items c (key e) = Some a)"
    and dm: "dom (items c) = set (entryKeys c)"
    by (auto simp: index_ok_def split: option.splits)
  have "a \<in> set (evictionList c) \<and> (\<exists>e. elems c a = Some e \<and> key e = k)"
    if "items c k = Some a" for k a
  proof -
    from that have "k \<in> set (entryKeys c)" using dm by auto
    then obtain a' e' where a': "a' \<in> set (evictionList c)" "elems c a' = Some e'" "key e' = k"
      by (auto simp: set_entryKeys)
    with el [of a'] have "items c k = Some a'" by auto
    with that have "a' = a" by simp
    with a' show ?thesis by auto
  qed
  with d el show ?R by blast
next
  assume r: ?R
  then have "dom (items c) = set (entryKeys c)"
    by (auto simp: set_entryKeys) blast+
  with r show ?L
    by (auto simp: index_ok_def split: option.splits)
qed

section \<open>What the operations compute\<close>

lemma remove1_last_distinct:
  "distinct l \<Longrightarrow> l \<noteq> [] \<Longrightarrow> remove1 (last l) l = butlast l"
  by (induction l) auto

lemma getTimestamp_sets:
  "getTimestamp now rnd (c\<lparr>sets := x\<rparr>) = getTimestamp now rnd c"
  by (simp add: getTimestamp_def)

lemma deleteElement_eq:
  "elems c a = Some e \<Longrightarrow>
   deleteElement a c =
     Inr (e, c\<lparr>evictionList := list_Remove a (evictionList c),
               items := (items c)(key e := None)\<rparr>)"
  by (simp add: deleteElement_def)

lemma evictOldest_empty: "evictionList c = [] \<Longrightarrow> evictOldest c = Inr (False, c)"
  by (simp add: evictOldest_def list_Back_def)

lemma evictOldest_nonempty:
  assumes "evictionList c \<noteq> []" and "distinct (evictionList c)"
    and "elems c (last (evictionList c)) = Some e"
  shows "evictOldest c =
     Inr (True, c\<lparr>evictions := evictions c + 1,
                  evictionList := butlast (evictionList c),
                  items := (items c)(key e := None),
                  calls := calls c @ (if onEviction c then [EvictionCall (key e) (val e)] else [])\<rparr>)"
  using assms
  by (simp add: evictOldest_def list_Back_def deleteElement_def list_Remove_def invoke_def
      remove1_last_distinct)

section \<open>Steps that keep the index and the list together\<close>

lemma index_okD_list:
  "index_ok c \<Longrightarrow> a \<in> set (evictionList c) \<Longrightarrow>
   a < nextElem c \<and> (\<exists>e. elems c a = Some e \<and> items c (key e) = Some a)"
  by (simp add: index_ok_iff)

lemma index_okD_items:
  "index_ok c \<Longrightarrow> items c k = Some a \<Longrightarrow>
   a \<in> set (evictionList c) \<and> (\<exists>e. elems c a = Some e \<and> key e = k)"
  by (simp add: index_ok_iff)

lemma index_okD_distinct: "index_ok c \<Longrightarrow> distinct (evictionList c)"
  by (simp add: index_ok_iff)

lemma index_ok_delete:
  assumes ok: "index_ok c" and a: "a \<in> set (evictionList c)" and e: "elems c a = Some e"
  shows "index_ok (c\<lparr>evictionList := remove1 a (evictionList c),
                     items := (items c)(key e := None)\<rparr>)"
proof -
  note d = index_okD_distinct [OF ok]
  have bk: "items c (key e) = Some a"
    using index_okD_list [OF ok a] e by auto
  have 1: "a' < nextElem c \<and> (\<exists>e'. elems c a' = Some e' \<and> ((items c)(key e := None)) (key e') = Some a')"
    if "a' \<in> set (remove1 a (evictionList c))" for a'
  proof -
    from that d have in_l: "a' \<in> set (evictionList c)" and ne: "a' \<noteq> a" by auto
    from index_okD_list [OF ok in_l] obtain e' where
      e': "a' < nextElem c" "elems c a' = Some e'" "items c (key e') = Some a'" by auto
    with bk ne have "key e' \<noteq> key e" by auto
    with e' show ?thesis by simp
  qed
  have 2: "a' \<in> set (remove1 a (evictionList c)) \<and> (\<exists>e'. elems c a' = Some e' \<and> key e' = k)"
    if "((items c)(key e := None)) k = Some a'" for k a'
  proof -
    from that have k: "k \<noteq> key e" "items c k = Some a'" by (auto split: if_splits)
    from index_okD_items [OF ok k(2)] obtain e' where
      e': "a' \<in> set (evictionList c)" "elems c a' = Some e'" "key e' = k" by auto
    with e k have "a' \<noteq> a" by auto
    with e' d show ?thesis by auto
  qed
  show ?thesis
    unfolding index_ok_iff using d 1 2 by simp
qed

lemma index_ok_reorder:
  assumes "index_ok c" and "distinct l" and "set l = set (evictionList c)"
  shows "index_ok (c\<lparr>evictionList := l\<rparr>)"
  using assms unfolding index_ok_iff by simp

lemma index_ok_MoveToFront:
  "index_ok c \<Longrightarrow> index_ok (c\<lparr>evictionList := list_MoveToFront a (evictionList c)\<rparr>)"
  by (rule index_ok_reorder) (auto simp: list_MoveToFront_def dest: index_okD_distinct)

lemma index_ok_update_entry:
  assumes ok: "index_ok c" and k: "items c k = Some a" and e: "elems c a = Some e"
    and same: "key e' = key e"
  shows "index_ok (c\<lparr>elems := (elems c)(a \<mapsto> e')\<rparr>)"
proof -
  have 1: "a' < nextElem c \<and> (\<exists>x. ((elems c)(a \<mapsto> e')) a' = Some x \<and> items c (key x) = Some a')"
    if "a' \<in> set (evictionList c)" for a'
    using index_okD_list [OF ok that] e same by (cases "a' = a") auto
  have 2: "a' \<in> set (evictionList c) \<and> (\<exists>x. ((elems c)(a \<mapsto> e')) a' = Some x \<and> key x = k')"
    if "items c k' = Some a'" for k' a'
    using index_okD_items [OF ok that] e same by (cases "a' = a") auto
  show ?thesis
    unfolding index_ok_iff using index_okD_distinct [OF ok] 1 2 by simp
qed

lemma index_ok_insert:
  assumes ok: "index_ok c" and k: "items c k = None" and ek: "key e = k"
  shows "index_ok (c\<lparr>elems := (elems c)(nextElem c \<mapsto> e),
                     nextElem := nextElem c + 1,
                     evictionList := nextElem c # evictionList c,
                     items := (items c)(k \<mapsto> nextElem c)\<rparr>)"
proof -
  let ?n = "nextElem c"
  have fresh: "?n \<notin> set (evictionList c)"
    using index_okD_list [OF ok, of ?n] by auto
  have 1: "a' < ?n + 1 \<and> (\<exists>x. ((elems c)(?n \<mapsto> e)) a' = Some x
             \<and> ((items c)(k \<mapsto> ?n)) (key x) = Some a')"
    if "a' \<in> set (?n # evictionList c)" for a'
  proof (cases "a' = ?n")
    case True
    then show ?thesis using ek by simp
  next
    case False
    with that have in_l: "a' \<in> set (evictionList c)" by simp
    from index_okD_list [OF ok in_l] obtain x where
      x: "a' < ?n" "elems c a' = Some x" "items c (key x) = Some a'" by auto
    with k have "key x \<noteq> k" by auto
    with x False show ?thesis by simp
  qed
  have 2: "a' \<in> set (?n # evictionList c) \<and> (\<exists>x. ((elems c)(?n \<mapsto> e)) a' = Some x \<and> key x = k')"
    if "((items c)(k \<mapsto> ?n)) k' = Some a'" for k' a'
  proof (cases "k' = k")
    case True
    with that ek show ?thesis by simp
  next
    case False
    with that have "items c k' = Some a'" by simp
    from index_okD_items [OF ok this] obtain x where
      x: "a' \<in> set (evictionList c)" "elems c a' = Some x" "key x = k'" by auto
    with fresh have "a' \<noteq> ?n" by auto
    with x show ?thesis by simp
  qed
  show ?thesis
    unfolding index_ok_iff using index_okD_distinct [OF ok] fresh 1 2 by simp
qed

section \<open>The branches of Set and Get\<close>

lemma Set_existing:
  assumes "items c k = Some a" and "elems c a = Some e"
  shows "Set k v now rnd c =
     Inr (False, c\<lparr>sets := sets c + 1,
                   evictionList := list_MoveToFront a (evictionList c),
                   elems := (elems c)(a \<mapsto> e\<lparr>val := v, timestamp := getTimestamp now rnd c\<rparr>)\<rparr>)"
  using assms by (simp add: Set_def Let_def getTimestamp_sets)

lemma Set_new_room:
  assumes "items c k = None" and "Len c + 1 \<le> capacity c"
  shows "Set k v now rnd c =
     Inr (False, c\<lparr>sets := sets c + 1,
                   elems := (elems c)(nextElem c \<mapsto>
                              \<lparr>key = k, val = v, timestamp = getTimestamp now rnd c\<rparr>),
                   nextElem := nextElem c + 1,
                   evictionList := nextElem c # evictionList c,
                   items := (items c)(k \<mapsto> nextElem c)\<rparr>)"
  using assms
  by (simp add: Set_def Let_def getTimestamp_sets Len_def list_Len_def list_PushFront_def)

lemma Set_new_evict:
  assumes k: "items c k = None" and full: "Len c + 1 > capacity c"
    and ok: "index_ok c" and ne: "evictionList c \<noteq> []"
    and oe: "elems c (last (evictionList c)) = Some oe"
  shows "Set k v now rnd c =
     Inr (True, c\<lparr>sets := sets c + 1,
                  elems := (elems c)(nextElem c \<mapsto>
                             \<lparr>key = k, val = v, timestamp = getTimestamp now rnd c\<rparr>),
                  nextElem := nextElem c + 1,
                  evictionList := nextElem c # butlast (evictionList c),
                  items := ((items c)(k \<mapsto> nextElem c))(key oe := None),
                  evictions := evictions c + 1,
                  calls := calls c @ (if onEviction c then [EvictionCall (key oe) (val oe)] else [])\<rparr>)"
proof -
  let ?n = "nextElem c"
  let ?e = "\<lparr>key = k, val = v, timestamp = getTimestamp now rnd c\<rparr>"
  let ?c3 = "c\<lparr>sets := sets c + 1, elems := (elems c)(?n \<mapsto> ?e), nextElem := ?n + 1,
               evictionList := ?n # evictionList c, items := (items c)(k \<mapsto> ?n)\<rparr>"
  have fresh: "?n \<notin> set (evictionList c)"
    using index_okD_list [OF ok, of ?n] by auto
  have lastne: "last (evictionList c) \<noteq> ?n"
    using fresh ne last_in_set by metis
  have ev: "evictOldest ?c3 =
     Inr (True, ?c3\<lparr>evictions := evictions ?c3 + 1,
                  evictionList := butlast (evictionList ?c3),
                  items := (items ?c3)(key oe := None),
                  calls := calls ?c3 @ (if onEviction ?c3 then [EvictionCall (key oe) (val oe)] else [])\<rparr>)"
    by (rule evictOldest_nonempty) (use ne fresh lastne oe index_okD_distinct [OF ok] in auto)
  show ?thesis
    using k full ev ne
    by (simp add: Set_def Let_def getTimestamp_sets Len_def list_Len_def list_PushFront_def)
qed

lemma Get_absent:
  "items c k = None \<Longrightarrow>
   Get k now c = Inr (None, c\<lparr>gets := gets c + 1, misses := misses c + 1\<rparr>)"
  by (simp add: Get_def Let_def)

lemma Get_hit:
  assumes "items c k = Some a" and "elems c a = Some e"
    and "maxAge c = 0 \<or> Since now (timestamp e) \<le> maxAge c"
  shows "Get k now c =
     Inr (Some (val e), c\<lparr>gets := gets c + 1,
                           evictionList := list_MoveToFront a (evictionList c),
                           hits := hits c + 1\<rparr>)"
  using assms by (auto simp add: Get_def Let_def)

lemma Get_stale:
  assumes "items c k = Some a" and "elems c a = Some e"
    and "\<not> (maxAge c = 0 \<or> Since now (timestamp e) \<le> maxAge c)"
  shows "Get k now c =
     Inr (None, c\<lparr>gets := gets c + 1,
                  evictionList := list_Remove a (evictionList c),
                  items := (items c)(key e := None),
                  misses := misses c + 1,
                  calls := calls c @ (if onExpiration c then [ExpirationCall (key e) (val e)] else [])\<rparr>)"
  using assms by (simp add: Get_def Let_def deleteElement_def invoke_def)

section \<open>Every operation keeps the invariant\<close>

lemma index_ok_transfer:
  "index_ok c \<Longrightarrow> items c' = items c \<Longrightarrow> evictionList c' = evictionList c \<Longrightarrow>
   elems c' = elems c \<Longrightarrow> nextElem c' = nextElem c \<Longrightarrow> index_ok c'"
  by (simp add: index_ok_iff)

lemma length_MoveToFront [simp]: "length (list_MoveToFront a l) = length l"
  using length_pos_if_in_set [of a l]
  by (auto simp: list_MoveToFront_def length_remove1)

lemma New_inv: "New config = Inr c \<Longrightarrow> cache_inv c"
  by (auto simp: New_def Let_def cache_inv_def index_ok_def config_ok_def entryKeys_def
      Len_def list_Len_def list_Init_def split: if_splits)

lemma last_entry:
  assumes "index_ok c" and "evictionList c \<noteq> []"
  obtains oe where "elems c (last (evictionList c)) = Some oe"
    and "items c (key oe) = Some (last (evictionList c))"
  using index_okD_list [OF assms(1), of "last (evictionList c)"] assms(2) by auto

lemma Set_inv:
  assumes inv: "cache_inv c"
  shows "\<exists>b c'. Set k v now rnd c = Inr (b, c') \<and> cache_inv c' \<and> capacity c' = capacity c"
proof -
  from inv have ok: "index_ok c" and cfg: "config_ok c" and len: "Len c \<le> capacity c"
    by (simp_all add: cache_inv_def)
  show ?thesis
  proof (cases "items c k")
    case (Some a)
    from index_okD_items [OF ok Some] obtain e where e: "elems c a = Some e" "key e = k"
      by auto
    let ?e' = "e\<lparr>val := v, timestamp := getTimestamp now rnd c\<rparr>"
    let ?c1 = "c\<lparr>evictionList := list_MoveToFront a (evictionList c)\<rparr>"
    have "index_ok ?c1" by (rule index_ok_MoveToFront [OF ok])
    then have "index_ok (?c1\<lparr>elems := (elems ?c1)(a \<mapsto> ?e')\<rparr>)"
      by (rule index_ok_update_entry [where k = k and e = e]) (use Some e in simp_all)
    then have "index_ok (c\<lparr>sets := sets c + 1,
                   evictionList := list_MoveToFront a (evictionList c),
                   elems := (elems c)(a \<mapsto> ?e')\<rparr>)"
      by (rule index_ok_transfer) simp_all
    with cfg len show ?thesis
      unfolding Set_existing [OF Some e(1)]
      by (auto simp add: cache_inv_def config_ok_def Len_def list_Len_def)
  next
    case None
    let ?e = "\<lparr>key = k, val = v, timestamp = getTimestamp now rnd c\<rparr>"
    let ?c3 = "c\<lparr>elems := (elems c)(nextElem c \<mapsto> ?e), nextElem := nextElem c + 1,
                 evictionList := nextElem c # evictionList c,
                 items := (items c)(k \<mapsto> nextElem c)\<rparr>"
    have ok3: "index_ok ?c3"
      by (rule index_ok_insert [OF ok None]) simp
    show ?thesis
    proof (cases "Len c + 1 \<le> capacity c")
      case True
      have "index_ok (c\<lparr>sets := sets c + 1,
                   elems := (elems c)(nextElem c \<mapsto> ?e),
                   nextElem := nextElem c + 1,
                   evictionList := nextElem c # evictionList c,
                   items := (items c)(k \<mapsto> nextElem c)\<rparr>)"
        by (rule index_ok_transfer [OF ok3]) simp_all
      with cfg True show ?thesis
        unfolding Set_new_room [OF None True]
        by (auto simp add: cache_inv_def config_ok_def Len_def list_Len_def)
    next
      case False
      with len cfg have ne: "evictionList c \<noteq> []"
        by (auto simp: Len_def list_Len_def config_ok_def)
      from last_entry [OF ok ne] obtain oe where
        oe: "elems c (last (evictionList c)) = Some oe" by blast
      from False have full: "Len c + 1 > capacity c" by simp
      let ?a = "last (evictionList c)"
      have fresh: "nextElem c \<notin> set (evictionList c)"
        using index_okD_list [OF ok, of "nextElem c"] by auto
      have neq: "?a \<noteq> nextElem c" using fresh ne last_in_set by metis
      have "index_ok (?c3\<lparr>evictionList := remove1 ?a (evictionList ?c3),
                         items := (items ?c3)(key oe := None)\<rparr>)"
        by (rule index_ok_delete [OF ok3]) (use ne neq oe in auto)
      then have "index_ok (c\<lparr>sets := sets c + 1,
                  elems := (elems c)(nextElem c \<mapsto> ?e),
                  nextElem := nextElem c + 1,
                  evictionList := nextElem c # butlast (evictionList c),
                  items := ((items c)(k \<mapsto> nextElem c))(key oe := None),
                  evictions := evictions c + 1,
                  calls := calls c @ (if onEviction c then [EvictionCall (key oe) (val oe)] else [])\<rparr>)"
        by (rule index_ok_transfer)
          (use neq ne index_okD_distinct [OF ok] in \<open>simp_all add: remove1_last_distinct\<close>)
      with cfg len ne show ?thesis
        unfolding Set_new_evict [OF None full ok ne oe]
        by (auto simp add: cache_inv_def config_ok_def Len_def list_Len_def)
    qed
  qed
qed

lemma length_Remove_le: "length (list_Remove a l) \<le> length l"
  by (simp add: list_Remove_def length_remove1)

lemma index_ok_Remove:
  assumes ok: "index_ok c" and a: "a \<in> set (evictionList c)" and e: "elems c a = Some e"
  shows "index_ok (c\<lparr>evictionList := list_Remove a (evictionList c),
                     items := (items c)(key e := None)\<rparr>)"
  using index_ok_delete [OF ok a e] a by (simp add: list_Remove_def)

lemma deleteElement_inv:
  assumes inv: "cache_inv c" and a: "a \<in> set (evictionList c)"
  shows "\<exists>e c'. deleteElement a c = Inr (e, c') \<and> cache_inv c'"
proof -
  from inv have ok: "index_ok c" and cfg: "config_ok c" and len: "Len c \<le> capacity c"
    by (simp_all add: cache_inv_def)
  from index_okD_list [OF ok a] obtain e where e: "elems c a = Some e" by auto
  from cfg len index_ok_Remove [OF ok a e] length_Remove_le [of a "evictionList c"]
  show ?thesis
    unfolding deleteElement_eq [OF e]
    by (auto simp add: cache_inv_def config_ok_def Len_def list_Len_def)
qed

lemma Get_inv:
  assumes inv: "cache_inv c"
  shows "\<exists>r c'. Get k now c = Inr (r, c') \<and> cache_inv c'"
proof -
  from inv have ok: "index_ok c" and cfg: "config_ok c" and len: "Len c \<le> capacity c"
    by (simp_all add: cache_inv_def)
  show ?thesis
  proof (cases "items c k")
    case None
    have "index_ok (c\<lparr>gets := gets c + 1, misses := misses c + 1\<rparr>)"
      by (rule index_ok_transfer [OF ok]) simp_all
    with cfg len show ?thesis
      unfolding Get_absent [OF None]
      by (auto simp add: cache_inv_def config_ok_def Len_def list_Len_def)
  next
    case (Some a)
    from index_okD_items [OF ok Some] obtain e where
      a: "a \<in> set (evictionList c)" and e: "elems c a = Some e" by auto
    show ?thesis
    proof (cases "maxAge c = 0 \<or> Since now (timestamp e) \<le> maxAge c")
      case True
      have "index_ok (c\<lparr>gets := gets c + 1,
                         evictionList := list_MoveToFront a (evictionList c),
                         hits := hits c + 1\<rparr>)"
        by (rule index_ok_transfer [OF index_ok_MoveToFront [OF ok, of a]]) simp_all
      with cfg len show ?thesis
        unfolding Get_hit [OF Some e True]
        by (auto simp add: cache_inv_def config_ok_def Len_def list_Len_def)
    next
      case False
      have "index_ok (c\<lparr>gets := gets c + 1,
                  evictionList := list_Remove a (evictionList c),
                  items := (items c)(key e := None),
                  misses := misses c + 1,
                  calls := calls c @ (if onExpiration c then [ExpirationCall (key e) (val e)] else [])\<rparr>)"
        by (rule index_ok_transfer [OF index_ok_Remove [OF ok a e]]) simp_all
      with cfg len length_Remove_le [of a "evictionList c"] show ?thesis
        unfolding Get_stale [OF Some e False]
        by (auto simp add: cache_inv_def config_ok_def Len_def list_Len_def)
    qed
  qed
qed

lemma Remove_inv:
  assumes inv: "cache_inv c"
  shows "\<exists>b c'. Remove k c = Inr (b, c') \<and> cache_inv c'"
proof (cases "items c k")
  case None
  with inv show ?thesis by (auto simp add: Remove_def)
next
  case (Some a)
  from inv have ok: "index_ok c" by (simp add: cache_inv_def)
  from index_okD_items [OF ok Some] have "a \<in> set (evictionList c)" by simp
  from deleteElement_inv [OF inv this] Some show ?thesis
    by (auto simp: Remove_def)
qed

lemma evictOldest_inv:
  assumes inv: "cache_inv c"
  shows "\<exists>b c'. evictOldest c = Inr (b, c') \<and> cache_inv c'"
proof (cases "evictionList c = []")
  case True
  with inv show ?thesis by (auto simp add: evictOldest_empty)
next
  case False
  from inv have ok: "index_ok c" and cfg: "config_ok c" and len: "Len c \<le> capacity c"
    by (simp_all add: cache_inv_def)
  from last_entry [OF ok False] obtain oe where
    oe: "elems c (last (evictionList c)) = Some oe" by blast
  note d = index_okD_distinct [OF ok]
  have "index_ok (c\<lparr>evictionList := remove1 (last (evictionList c)) (evictionList c),
                     items := (items c)(key oe := None)\<rparr>)"
    by (rule index_ok_delete [OF ok _ oe]) (use False in simp)
  then have "index_ok (c\<lparr>evictions := evictions c + 1,
                  evictionList := butlast (evictionList c),
                  items := (items c)(key oe := None),
                  calls := calls c @ (if onEviction c then [EvictionCall (key oe) (val oe)] else [])\<rparr>)"
    by (rule index_ok_transfer) (use False d in \<open>simp_all add: remove1_last_distinct\<close>)
  with cfg len show ?thesis
    unfolding evictOldest_nonempty [OF False d oe]
    by (auto simp add: cache_inv_def config_ok_def Len_def list_Len_def)
qed

lemma SetMaxAge_inv: "cache_inv c \<Longrightarrow> SetMaxAge d c = (err, c') \<Longrightarrow> cache_inv c'"
  by (auto simp: SetMaxAge_def cache_inv_def config_ok_def Len_def index_ok_iff
      split: if_splits)

lemma SetMinAge_inv: "cache_inv c \<Longrightarrow> SetMinAge d c = (err, c') \<Longrightarrow> cache_inv c'"
  by (auto simp: SetMinAge_def cache_inv_def config_ok_def Len_def index_ok_iff
      split: if_splits)

lemma OnEviction_inv: "cache_inv c \<Longrightarrow> cache_inv (OnEviction callback c)"
  by (simp add: OnEviction_def cache_inv_def config_ok_def Len_def index_ok_iff)

lemma OnExpiration_inv: "cache_inv c \<Longrightarrow> cache_inv (OnExpiration callback c)"
  by (simp add: OnExpiration_def cache_inv_def config_ok_def Len_def index_ok_iff)

lemma index_ok_empty_dom:
  assumes "index_ok c" and "dom (items c) = {}"
  shows "evictionList c = []"
proof (rule ccontr)
  assume ne: "evictionList c \<noteq> []"
  then have "last (evictionList c) \<in> set (evictionList c)" by simp
  from index_okD_list [OF assms(1) this] obtain e where
    "elems c (last (evictionList c)) = Some e"
    "items c (key e) = Some (last (evictionList c))" by auto
  then have "key e \<in> dom (items c)" by (simp add: domI)
  then show False unfolding assms(2) by simp
qed

lemma clearLoop_inv:
  assumes "cache_inv c"
  shows "\<exists>c'. clearLoop ks c = Inr c' \<and> cache_inv c'
           \<and> dom (items c') = dom (items c) - set ks
           \<and> calls c' = calls c \<and> evictions c' = evictions c"
  using assms
proof (induction ks arbitrary: c)
  case Nil
  then show ?case by simp
next
  case (Cons k ks)
  show ?case
  proof (cases "items c k")
    case None
    from Cons.IH [OF Cons.prems] obtain c' where
      c': "clearLoop ks c = Inr c'" "cache_inv c'" "dom (items c') = dom (items c) - set ks"
        "calls c' = calls c" "evictions c' = evictions c"
      by blast
    have step: "clearLoop (k # ks) c = clearLoop ks c"
      using None by simp
    have dm: "dom (items c) - set ks = dom (items c) - set (k # ks)"
      using None by auto
    have "clearLoop (k # ks) c = Inr c' \<and> cache_inv c'
           \<and> dom (items c') = dom (items c) - set (k # ks)
           \<and> calls c' = calls c \<and> evictions c' = evictions c"
      unfolding step using c' dm by simp
    then show ?thesis by blast
  next
    case (Some a)
    from Cons.prems have ok: "index_ok c" by (simp add: cache_inv_def)
    from index_okD_items [OF ok Some] obtain e where
      a: "a \<in> set (evictionList c)" and e: "elems c a = Some e" "key e = k" by auto
    let ?c1 = "c\<lparr>evictionList := list_Remove a (evictionList c),
                 items := (items c)(key e := None)\<rparr>"
    have del: "deleteElement a c = Inr (e, ?c1)" by (rule deleteElement_eq [OF e(1)])
    from deleteElement_inv [OF Cons.prems a] del have "cache_inv ?c1" by simp
    from Cons.IH [OF this] obtain c' where
      c': "clearLoop ks ?c1 = Inr c'" "cache_inv c'"
        "dom (items c') = dom (items ?c1) - set ks"
        "calls c' = calls ?c1" "evictions c' = evictions ?c1"
      by blast
    have step: "clearLoop (k # ks) c = clearLoop ks ?c1"
      using Some del by simp
    have dm: "dom (items ?c1) - set ks = dom (items c) - set (k # ks)"
      using e(2) by auto
    have "clearLoop (k # ks) c = Inr c' \<and> cache_inv c'
           \<and> dom (items c') = dom (items c) - set (k # ks)
           \<and> calls c' = calls c \<and> evictions c' = evictions c"
      unfolding step using c' dm by simp
    then show ?thesis by blast
  qed
qed

lemma Clear_inv:
  assumes inv: "cache_inv c" and ks: "dom (items c) \<subseteq> set ks"
  shows "\<exists>c'. Clear ks c = Inr ((), c') \<and> cache_inv c' \<and> items c' = Map.empty
           \<and> evictionList c' = [] \<and> calls c' = calls c \<and> evictions c' = evictions c"
proof -
  from clearLoop_inv [OF inv, of ks] obtain c1 where
    c1: "clearLoop ks c = Inr c1" "cache_inv c1" "dom (items c1) = dom (items c) - set ks"
      "calls c1 = calls c" "evictions c1 = evictions c"
    by blast
  with ks have dm: "dom (items c1) = {}" by auto
  from c1(2) have ok: "index_ok c1" by (simp add: cache_inv_def)
  have "evictionList c1 = []" by (rule index_ok_empty_dom [OF ok dm])
  then have same: "c1\<lparr>evictionList := list_Init\<rparr> = c1"
    by (simp add: list_Init_def)
  have run: "Clear ks c = Inr ((), c1)"
    by (simp add: Clear_def c1(1) same)
  from dm have "items c1 = Map.empty" by simp
  with c1 \<open>evictionList c1 = []\<close> show ?thesis
    unfolding run by simp
qed

section \<open>The loop of Resize\<close>

lemma drop_last_one: "l \<noteq> [] \<Longrightarrow> drop (length l - Suc 0) l = [last l]"
  by (induction l rule: rev_induct) auto

lemma drop_snoc_last:
  assumes "l \<noteq> []" and "m < length l"
  shows "drop (length l - Suc m) l = drop (length l - Suc m) (butlast l) @ [last l]"
proof -
  let ?n = "length l - Suc m"
  have "drop ?n l = drop ?n (butlast l @ [last l])"
    using assms(1) by simp
  also have "\<dots> = drop ?n (butlast l) @ drop (?n - length (butlast l)) [last l]"
    by (rule drop_append)
  also have "drop (?n - length (butlast l)) [last l] = [last l]"
    using assms by simp
  finally show ?thesis .
qed

lemma evictBack_0: "evictBack 0 c = c"
  by (simp add: evictBack_def evictedEntries_def)

lemma evictOldest_step:
  assumes ok: "index_ok c" and ne: "evictionList c \<noteq> []"
  shows "evictOldest c = Inr (True, evictBack 1 c)"
proof -
  from last_entry [OF ok ne] obtain oe where
    oe: "elems c (last (evictionList c)) = Some oe" by blast
  have dr: "drop (length (evictionList c) - Suc 0) (evictionList c) = [last (evictionList c)]"
    by (rule drop_last_one [OF ne])
  have ee: "evictedEntries c (Suc 0) = [oe]"
    using oe by (simp add: evictedEntries_def dr)
  have tk: "take (length (evictionList c) - Suc 0) (evictionList c) = butlast (evictionList c)"
    by (simp add: butlast_conv_take)
  show ?thesis
    unfolding evictOldest_nonempty [OF ne index_okD_distinct [OF ok] oe]
    by (simp add: evictBack_def ee tk)
qed

lemma index_ok_evictBack_1:
  assumes ok: "index_ok c" and ne: "evictionList c \<noteq> []"
  shows "index_ok (evictBack 1 c)"
proof -
  from last_entry [OF ok ne] obtain oe where
    oe: "elems c (last (evictionList c)) = Some oe" by blast
  have "index_ok (c\<lparr>evictionList := remove1 (last (evictionList c)) (evictionList c),
                     items := (items c)(key oe := None)\<rparr>)"
    by (rule index_ok_delete [OF ok _ oe]) (use ne in simp)
  then show ?thesis
    by (rule index_ok_transfer)
      (use ne oe index_okD_distinct [OF ok] in
        \<open>simp_all add: evictBack_def evictedEntries_def drop_last_one remove1_last_distinct
           butlast_conv_take\<close>)
qed

lemma evictBack_sel:
  "evictions (evictBack m c) = evictions c + word_of_nat m"
  "evictionList (evictBack m c) = take (length (evictionList c) - m) (evictionList c)"
  "items (evictBack m c) = fold (\<lambda>e m. m(key e := None)) (evictedEntries c m) (items c)"
  "calls (evictBack m c) = calls c @
     (if onEviction c then map (\<lambda>e. EvictionCall (key e) (val e)) (evictedEntries c m)
      else [])"
  "capacity (evictBack m c) = capacity c"
  "minAge (evictBack m c) = minAge c"
  "maxAge (evictBack m c) = maxAge c"
  "expirationType (evictBack m c) = expirationType c"
  "expirationInterval (evictBack m c) = expirationInterval c"
  "onEviction (evictBack m c) = onEviction c"
  "onExpiration (evictBack m c) = onExpiration c"
  "sets (evictBack m c) = sets c"
  "gets (evictBack m c) = gets c"
  "hits (evictBack m c) = hits c"
  "misses (evictBack m c) = misses c"
  "elems (evictBack m c) = elems c"
  "nextElem (evictBack m c) = nextElem c"
  "Cache.more (evictBack m c) = Cache.more c"
  by (simp_all add: evictBack_def)

lemma evictBack_Suc:
  assumes ne: "evictionList c \<noteq> []" and m: "m < length (evictionList c)"
    and oe: "elems c (last (evictionList c)) = Some oe"
  shows "evictBack m (evictBack 1 c) = evictBack (Suc m) c"
proof -
  let ?l = "evictionList c"
  have l1: "evictionList (evictBack 1 c) = butlast ?l"
    by (simp add: evictBack_sel butlast_conv_take)
  have dr: "drop (length ?l - Suc m) ?l = drop (length ?l - Suc m) (butlast ?l) @ [last ?l]"
    by (rule drop_snoc_last [OF ne m])
  have ee1: "evictedEntries c (Suc 0) = [oe]"
    using oe by (simp add: evictedEntries_def drop_last_one [OF ne])
  have ee: "evictedEntries c (Suc m) = oe # evictedEntries (evictBack (Suc 0) c) m"
    using oe m by (simp add: evictedEntries_def dr evictBack_sel butlast_conv_take)
  have tk: "take (length (butlast ?l) - m) (butlast ?l) = take (length ?l - Suc m) ?l"
    using m by (simp add: butlast_conv_take min_def)
  show ?thesis
    using tk by (intro Cache.equality) (simp_all add: evictBack_sel ee ee1 butlast_conv_take)
qed

lemma index_ok_evictBack:
  "index_ok c \<Longrightarrow> m \<le> length (evictionList c) \<Longrightarrow> index_ok (evictBack m c)"
proof (induction m arbitrary: c)
  case 0
  then show ?case by (simp add: evictBack_0)
next
  case (Suc m)
  then have ne: "evictionList c \<noteq> []" by auto
  from last_entry [OF Suc.prems(1) ne] obtain oe where
    oe: "elems c (last (evictionList c)) = Some oe" by blast
  have ok1: "index_ok (evictBack 1 c)"
    by (rule index_ok_evictBack_1 [OF Suc.prems(1) ne])
  have "m \<le> length (evictionList (evictBack 1 c))"
    using Suc.prems(2) by (simp add: evictBack_sel)
  from Suc.IH [OF ok1 this] show ?case
    using evictBack_Suc [OF ne _ oe, of m] Suc.prems(2) by simp
qed

lemma resizeLoop_spec:
  "index_ok c \<Longrightarrow>
   resizeLoop i d c = Inr (evictBack (min (length (evictionList c)) (nat (d - i))) c)"
proof (induction i d c rule: resizeLoop.induct)
  case (1 i d c)
  show ?case
  proof (cases "i < d")
    case False
    then show ?thesis
      by (subst resizeLoop.simps) (simp add: evictBack_0)
  next
    case True
    show ?thesis
    proof (cases "evictionList c = []")
      case True
      with \<open>i < d\<close> show ?thesis
        by (subst resizeLoop.simps) (simp add: evictOldest_empty evictBack_0)
    next
      case False
      let ?l = "evictionList c"
      let ?m1 = "min (length (evictionList (evictBack 1 c))) (nat (d - (i + 1)))"
      from last_entry [OF "1.prems" False] obtain oe where
        oe: "elems c (last ?l) = Some oe" by blast
      have ev: "evictOldest c = Inr (True, evictBack 1 c)"
        by (rule evictOldest_step [OF "1.prems" False])
      have ok1: "index_ok (evictBack 1 c)"
        by (rule index_ok_evictBack_1 [OF "1.prems" False])
      have ih: "resizeLoop (i + 1) d (evictBack 1 c) = Inr (evictBack ?m1 (evictBack 1 c))"
        by (rule "1.IH" [OF True ev refl _ ok1]) simp
      from False obtain n where n: "length ?l = Suc n"
        by (cases ?l) auto
      have l1: "length (evictionList (evictBack 1 c)) = n"
        using n by (simp add: evictBack_sel)
      have d1: "nat (d - i) = Suc (nat (d - (i + 1)))"
        using True by arith
      have m1: "?m1 < length ?l" and m: "Suc ?m1 = min (length ?l) (nat (d - i))"
        unfolding l1 n d1 by simp_all
      have "resizeLoop i d c = resizeLoop (i + 1) d (evictBack 1 c)"
        using True ev by (subst resizeLoop.simps) simp
      also have "\<dots> = Inr (evictBack (Suc ?m1) c)"
        unfolding ih using evictBack_Suc [OF False m1 oe] by simp
      finally show ?thesis unfolding m .
    qed
  qed
qed

lemma Resize_spec:
  assumes "index_ok c" and "0 < n"
  shows "Resize n c =
     Inr (None, evictBack (min (length (evictionList c)) (nat (capacity c - n)))
                  (c\<lparr>capacity := n\<rparr>))"
proof -
  have "index_ok (c\<lparr>capacity := n\<rparr>)"
    by (rule index_ok_transfer [OF assms(1)]) simp_all
  from resizeLoop_spec [OF this, of 0 "capacity c - n"] assms(2) show ?thesis
    by (simp add: Resize_def Let_def)
qed

lemma Resize_inv:
  assumes inv: "cache_inv c"
  shows "\<exists>err c'. Resize n c = Inr (err, c') \<and> cache_inv c'"
proof (cases "n \<le> 0")
  case True
  with inv show ?thesis by (auto simp: Resize_def)
next
  case False
  from inv have ok: "index_ok c" and cfg: "config_ok c" and len: "Len c \<le> capacity c"
    by (simp_all add: cache_inv_def)
  let ?m = "min (length (evictionList c)) (nat (capacity c - n))"
  have ok1: "index_ok (c\<lparr>capacity := n\<rparr>)"
    by (rule index_ok_transfer [OF ok]) simp_all
  have "index_ok (evictBack ?m (c\<lparr>capacity := n\<rparr>))"
    by (rule index_ok_evictBack [OF ok1]) simp
  with cfg len False show ?thesis
    unfolding Resize_spec [OF ok, of n, simplified]
    by (auto simp: Resize_spec [OF ok] cache_inv_def config_ok_def Len_def list_Len_def
        evictBack_sel)
qed

section \<open>Reachable states satisfy the invariant\<close>

lemma deleteExpiredStep_inv:
  assumes inv: "cache_inv c"
  shows "\<exists>c'. deleteExpiredStep k now c = Inr c' \<and> cache_inv c'"
proof (cases "items c k")
  case None
  with inv show ?thesis by (simp add: deleteExpiredStep_def)
next
  case (Some a)
  from inv have ok: "index_ok c" and cfg: "config_ok c" and len: "Len c \<le> capacity c"
    by (simp_all add: cache_inv_def)
  from index_okD_items [OF ok Some] obtain e where
    a: "a \<in> set (evictionList c)" and e: "elems c a = Some e" by auto
  show ?thesis
  proof (cases "expired now c e")
    case False
    with inv Some e show ?thesis by (simp add: deleteExpiredStep_def)
  next
    case True
    let ?c1 = "c\<lparr>evictionList := list_Remove a (evictionList c),
                 items := (items c)(key e := None)\<rparr>"
    let ?c2 = "invoke (onExpiration ?c1) (ExpirationCall (key e) (val e)) ?c1"
    have step: "deleteExpiredStep k now c = Inr ?c2"
      using Some e True by (simp add: deleteExpiredStep_def deleteElement_eq [OF e])
    have "index_ok ?c2"
      by (rule index_ok_transfer [OF index_ok_Remove [OF ok a e]]) (simp_all add: invoke_def)
    with cfg len length_Remove_le [of a "evictionList c"] have "cache_inv ?c2"
      by (auto simp add: cache_inv_def config_ok_def Len_def list_Len_def invoke_def)
    with step show ?thesis by simp
  qed
qed

lemma reachable_inv: "reachable c \<Longrightarrow> cache_inv c"
proof (induction rule: reachable.induct)
  case (reach_New config c)
  then show ?case by (rule New_inv)
next
  case (reach_Set c k v now Int63n b c1)
  with Set_inv [OF reach_Set.IH, of k v now Int63n] show ?case by auto
next
  case (reach_Get c k now r c1)
  with Get_inv [OF reach_Get.IH, of k now] show ?case by auto
next
  case (reach_Remove c k b c1)
  with Remove_inv [OF reach_Remove.IH, of k] show ?case by auto
next
  case (reach_EvictOldest c b c1)
  with evictOldest_inv [OF reach_EvictOldest.IH] show ?case by (auto simp: EvictOldest_def)
next
  case (reach_Clear c ks u c1)
  with Clear_inv [OF reach_Clear.IH, of ks] show ?case by auto
next
  case (reach_Resize c n err c1)
  with Resize_inv [OF reach_Resize.IH, of n] show ?case by auto
next
  case (reach_SetMaxAge c d err c1)
  then show ?case by (auto intro: SetMaxAge_inv)
next
  case (reach_SetMinAge c d err c1)
  then show ?case by (auto intro: SetMinAge_inv)
next
  case (reach_OnEviction c callback)
  from reach_OnEviction.IH show ?case by (rule OnEviction_inv)
next
  case (reach_OnExpiration c callback)
  from reach_OnExpiration.IH show ?case by (rule OnExpiration_inv)
next
  case (reach_sweep c k now c1)
  with deleteExpiredStep_inv [OF reach_sweep.IH, of k now] show ?case by auto
qed

lemma entryKeys_map:
  assumes "index_ok c"
  shows "entryKeys c = map (\<lambda>a. key (the (elems c a))) (evictionList c)"
proof -
  have "\<forall>a \<in> set l. elems c a \<noteq> None \<Longrightarrow>
        List.map_filter (\<lambda>a. map_option key (elems c a)) l = map (\<lambda>a. key (the (elems c a))) l"
    for l
    by (induction l) auto
  moreover have "\<forall>a \<in> set (evictionList c). elems c a \<noteq> None"
    using index_okD_list [OF assms] by auto
  ultimately show ?thesis by (simp add: entryKeys_def)
qed

lemma entryKeys_distinct:
  assumes ok: "index_ok c"
  shows "distinct (entryKeys c)"
proof -
  have "inj_on (\<lambda>a. key (the (elems c a))) (set (evictionList c))"
  proof (rule inj_onI)
    fix a b
    assume a: "a \<in> set (evictionList c)" and b: "b \<in> set (evictionList c)"
      and eq: "key (the (elems c a)) = key (the (elems c b))"
    from index_okD_list [OF ok a] index_okD_list [OF ok b] eq show "a = b" by auto
  qed
  with index_okD_distinct [OF ok] show ?thesis
    by (simp add: entryKeys_map [OF ok] distinct_map)
qed

lemma index_ok_card:
  assumes ok: "index_ok c"
  shows "card (dom (items c)) = length (evictionList c)"
proof -
  from ok have "dom (items c) = set (entryKeys c)" by (simp add: index_ok_def)
  then have "card (dom (items c)) = length (entryKeys c)"
    using entryKeys_distinct [OF ok] by (simp add: distinct_card)
  then show ?thesis by (simp add: entryKeys_map [OF ok])
qed

lemma setAll_inv:
  "cache_inv c \<Longrightarrow> \<exists>c'. setAll ops c = Inr c' \<and> cache_inv c' \<and> capacity c' = capacity c"
proof (induction ops arbitrary: c)
  case Nil
  then show ?case by simp
next
  case (Cons op ops)
  obtain k v now rnd where op: "op = (k, v, now, rnd)" by (cases op) auto
  from Set_inv [OF Cons.prems, of k v now rnd] obtain b c1 where
    c1: "Set k v now rnd c = Inr (b, c1)" "cache_inv c1" "capacity c1 = capacity c" by blast
  from Cons.IH [OF c1(2)] obtain c' where
    "setAll ops c1 = Inr c'" "cache_inv c'" "capacity c' = capacity c1" by blast
  with c1 op show ?case by simp
qed

lemma OrderedKeys_ok:
  assumes ok: "index_ok c"
  shows "OrderedKeys c = Inr (map Some (rev (entryKeys c)), c)"
proof -
  have all: "\<forall>a \<in> set (evictionList c). \<exists>e. elems c a = Some e"
    using index_okD_list [OF ok] by blast
  have mp: "map (\<lambda>a. map_option key (elems c a)) (rev (evictionList c)) =
            map Some (rev (entryKeys c))"
    using all by (fastforce simp add: entryKeys_map [OF ok] rev_map)
  show ?thesis
    using all by (simp add: OrderedKeys_def Let_def index_ok_card [OF ok] mp)
qed

lemma Set_result:
  assumes inv: "cache_inv c"
  shows "\<exists>b c1. Set k v now rnd c = Inr (b, c1)
           \<and> (b \<longleftrightarrow> evictions c1 = evictions c + 1)
           \<and> (\<not> b \<longrightarrow> evictions c1 = evictions c \<and> calls c1 = calls c
                      \<and> dom (items c) \<subseteq> dom (items c1))
           \<and> (\<exists>a. items c1 k = Some a
                 \<and> elems c1 a = Some \<lparr>key = k, val = v, timestamp = getTimestamp now rnd c\<rparr>)
           \<and> minAge c1 = minAge c \<and> maxAge c1 = maxAge c"
proof -
  from inv have ok: "index_ok c" and cfg: "config_ok c" and len: "Len c \<le> capacity c"
    by (simp_all add: cache_inv_def)
  show ?thesis
  proof (cases "items c k")
    case (Some a)
    from index_okD_items [OF ok Some] obtain e where e: "elems c a = Some e" "key e = k"
      by auto
    have "e\<lparr>val := v, timestamp := getTimestamp now rnd c\<rparr> =
          \<lparr>key = k, val = v, timestamp = getTimestamp now rnd c\<rparr>"
      using e(2) by (cases e) simp
    with Some show ?thesis
      unfolding Set_existing [OF Some e(1)] by auto
  next
    case None
    show ?thesis
    proof (cases "Len c + 1 \<le> capacity c")
      case True
      show ?thesis
        unfolding Set_new_room [OF None True] by auto
    next
      case False
      with len cfg have ne: "evictionList c \<noteq> []"
        by (auto simp: Len_def list_Len_def config_ok_def)
      from last_entry [OF ok ne] obtain oe where
        oe: "elems c (last (evictionList c)) = Some oe"
          "items c (key oe) = Some (last (evictionList c))" by blast
      from oe(2) None have "key oe \<noteq> k" by auto
      moreover from False have full: "Len c + 1 > capacity c" by simp
      ultimately show ?thesis
        unfolding Set_new_evict [OF None full ok ne oe(1)] by auto
    qed
  qed
qed

section \<open>Further facts: the generator's bound, signed counters, Resize on a full cache\<close>

lemma jitter_bound_positive:
  assumes "reachable c" and "minAge c \<noteq> maxAge c"
  shows "0 < maxAge c - minAge c"
  using reachable_inv [OF assms(1)] assms(2) by (simp add: cache_inv_def config_ok_def)

lemma int64_sub_signed:
  "sint (a - b :: int64) = signed_take_bit 63 (sint a - sint b)"
  by (simp add: sint_word_ariths)

lemma int64_sub_exact:
  assumes "- (2 ^ 63) \<le> sint a - sint b" and "sint a - sint b < 2 ^ 63"
  shows "sint (a - b :: int64) = sint a - sint b"
  using assms by (simp add: int64_sub_signed signed_take_bit_int_eq_self)

lemma Delta_Sets_exact:
  assumes "- (2 ^ 63) \<le> sint (Sets s) - sint (Sets p)"
    and "sint (Sets s) - sint (Sets p) < 2 ^ 63"
  shows "sint (Sets (Delta s p)) = sint (Sets s) - sint (Sets p)"
  using int64_sub_exact [OF assms] by (simp add: Delta_def)

lemma Resize_on_full_cache:
  assumes "reachable c" and "0 < n" and "n \<le> Len c" and "Len c = capacity c"
  shows "Resize n c = Inr (None, evictBack (nat (Len c - n)) (c\<lparr>capacity := n\<rparr>))"
    and "Len (evictBack (nat (Len c - n)) (c\<lparr>capacity := n\<rparr>)) = n"
proof -
  from assms(1) have "cache_inv c" by (rule reachable_inv)
  then have ok: "index_ok c" by (simp add: cache_inv_def)
  have "nat (capacity c - n) \<le> length (evictionList c)"
    using assms(2-4) unfolding Len_def list_Len_def by linarith
  then have m: "min (length (evictionList c)) (nat (capacity c - n)) = nat (Len c - n)"
    using assms(4) by (simp add: min_absorb2)
  show "Resize n c = Inr (None, evictBack (nat (Len c - n)) (c\<lparr>capacity := n\<rparr>))"
    using Resize_spec [OF ok assms(2)] m by simp
  show "Len (evictBack (nat (Len c - n)) (c\<lparr>capacity := n\<rparr>)) = n"
    using assms(2-4) by (simp add: Len_def list_Len_def evictBack_sel)
qed

lemma jitter_after_SetMaxAge:
  "\<exists>c0 c1. New (configC\<lparr>cfgMaxAge := 0\<rparr>) = Inr (c0 :: (nat, nat) Cache)
     \<and> SetMaxAge 10 c0 = (None, c1) \<and> minAge c1 = 0 \<and> maxAge c1 = 10
     \<and> getTimestamp 100 (\<lambda>n. n - 1) c1 = 91"
  by (simp add: New_def configC_def SetMaxAge_def getTimestamp_def)

section \<open>The example caches are reachable\<close>

lemma setAll_reachable: "reachable c \<Longrightarrow> setAll ops c = Inr c' \<Longrightarrow> reachable c'"
proof (induction ops arbitrary: c)
  case Nil
  then show ?case by simp
next
  case (Cons op ops)
  obtain k v now rnd where op: "op = (k, v, now, rnd)" by (cases op) auto
  with Cons.prems(2) obtain b c1 where
    c1: "Set k v now rnd c = Inr (b, c1)" "setAll ops c1 = Inr c'"
    by (auto split: sum.splits)
  from reach_Set [OF Cons.prems(1) c1(1)] c1(2) show ?case by (rule Cons.IH)
qed

lemma cacheA_built:
  "\<exists>c0. New configA = Inr c0
     \<and> setAll [(1, 7, 100, \<lambda>n. 0), (2, 8, 101, \<lambda>n. 0)] c0 = Inr cacheA"
  by (simp add: New_def configA_def cacheA_def Set_def getTimestamp_def list_Init_def
      list_PushFront_def list_Len_def Let_def)

lemma cacheA_reachable: "reachable cacheA"
  using cacheA_built reach_New setAll_reachable by blast

lemma cacheB_built: "New configB = Inr cacheB"
  by (simp add: New_def configB_def cacheB_def list_Init_def)

lemma cacheB_reachable: "reachable cacheB"
  using cacheB_built by (rule reach_New)

lemma cacheC_built:
  "\<exists>c0. New configC = Inr c0
     \<and> setAll [(1, 10, 0, \<lambda>n. 0), (2, 20, 0, \<lambda>n. 0), (3, 30, 0, \<lambda>n. 0)] c0 = Inr cacheC"
  by (simp add: New_def configC_def cacheC_def Set_def getTimestamp_def list_Init_def
      list_PushFront_def list_Len_def Let_def numeral_2_eq_2)

lemma cacheC_reachable: "reachable cacheC"
  using cacheC_built reach_New setAll_reachable by blast

lemmas eval_defs =
  New_def Set_def Get_def Peek_def Has_def Resize_def getTimestamp_def evictOldest_def
  deleteElement_def invoke_def list_Init_def list_PushFront_def list_MoveToFront_def
  list_Remove_def list_Back_def list_Len_def Len_def Let_def Since_def maxDuration_def
  minDuration_def

section \<open>The properties of the specification\<close>

subsection \<open>C1: Resize\<close>

text \<open>
  C1 says that \<open>Resize(n)\<close> with \<open>0 < n < Len()\<close> removes exactly \<open>Len() - n\<close>
  entries, from the back, with one eviction callback and one counter increment each, and
  that it removes nothing when \<open>n \<ge> Len()\<close>. The loop of \<open>Resize\<close> runs
  \<open>c - n\<close> times for the old capacity \<open>c\<close>, not for \<open>Len()\<close> (lemma
  \<open>Resize_spec\<close>: it evicts \<open>min (Len()) (c - n)\<close> entries, which is
  \<open>Len() - n\<close> when the cache is full, lemma \<open>Resize_on_full_cache\<close>). This
  theorem runs the code on \<open>cacheC\<close>, of capacity 5 with the 3 entries of keys 1,
  2, 3: \<open>Resize(2)\<close> evicts all three entries, where C1 says one, and \<open>Resize(4)\<close>
  evicts the entry of key 1, where C1 says none.
\<close>

theorem Resize_evicts_old_capacity_minus_n:
  "(\<exists>c0. New configC = Inr c0
      \<and> setAll [(1, 10, 0, \<lambda>n. 0), (2, 20, 0, \<lambda>n. 0), (3, 30, 0, \<lambda>n. 0)] c0 = Inr cacheC)
   \<and> Len cacheC = 3 \<and> capacity cacheC = 5
   \<and> Resize 2 cacheC =
       Inr (None,
            cacheC\<lparr>capacity := 2, evictions := 3, evictionList := [], items := Map.empty,
                    calls := [EvictionCall 1 10, EvictionCall 2 20, EvictionCall 3 30]\<rparr>)
   \<and> Resize 4 cacheC =
       Inr (None,
            cacheC\<lparr>capacity := 4, evictions := 1, evictionList := [2, 1],
                    items := [2 \<mapsto> 1, 3 \<mapsto> 2],
                    calls := [EvictionCall 1 10]\<rparr>)"
proof -
  have ok: "index_ok cacheC"
    using reachable_inv [OF cacheC_reachable] by (simp add: cache_inv_def)
  have l: "Len cacheC = 3" "capacity cacheC = 5"
    by (simp_all add: cacheC_def Len_def list_Len_def)
  have r2: "Resize 2 cacheC =
       Inr (None,
            cacheC\<lparr>capacity := 2, evictions := 3, evictionList := [], items := Map.empty,
                    calls := [EvictionCall 1 10, EvictionCall 2 20, EvictionCall 3 30]\<rparr>)"
    unfolding Resize_spec [OF ok, of 2, simplified]
    by (simp add: evictBack_def evictedEntries_def cacheC_def)
  have r4: "Resize 4 cacheC =
       Inr (None,
            cacheC\<lparr>capacity := 4, evictions := 1, evictionList := [2, 1],
                    items := [2 \<mapsto> 1, 3 \<mapsto> 2],
                    calls := [EvictionCall 1 10]\<rparr>)"
    unfolding Resize_spec [OF ok, of 4, simplified]
    by (auto simp add: evictBack_def evictedEntries_def cacheC_def)
  from cacheC_built l r2 r4 show ?thesis by simp
qed

subsection \<open>C2: jitter\<close>

text \<open>
  C2, amended. A cache constructed with \<open>MinAge = 0\<close> stores \<open>minAge = maxAge\<close>, and
  every \<open>Set\<close> on it assigns the timestamp \<open>now\<close>, whatever the generator answers.
  In a cache whose \<open>minAge\<close> differs from \<open>maxAge\<close>, when the generator answers
  \<open>r\<close> with \<open>0 \<le> r < maxAge - minAge\<close>, the timestamp is \<open>now - r\<close>, later than
  \<open>now - (maxAge - minAge)\<close> and not later than \<open>now\<close>; two different answers give two
  different timestamps at the same instant; and in every reachable cache \<open>Set\<close> returns
  and stores that timestamp in the entry of its key, leaving \<open>minAge\<close> and \<open>maxAge\<close>
  as they were. (That the answers are uniformly distributed is a property of the
  generator, which the cache takes as given.)
\<close>

theorem jitter_needs_minAge_below_maxAge:
  "(New config = Inr c0 \<and> cfgMinAge config = 0 \<longrightarrow>
       minAge c0 = maxAge c0 \<and> getTimestamp now rnd c0 = now)
   \<and> (minAge c \<noteq> maxAge c \<and> 0 \<le> rnd (maxAge c - minAge c)
        \<and> rnd (maxAge c - minAge c) < maxAge c - minAge c \<longrightarrow>
       getTimestamp now rnd c = now - rnd (maxAge c - minAge c)
       \<and> now - (maxAge c - minAge c) < getTimestamp now rnd c
       \<and> getTimestamp now rnd c \<le> now)
   \<and> (minAge c \<noteq> maxAge c \<and> rnd (maxAge c - minAge c) \<noteq> rnd' (maxAge c - minAge c) \<longrightarrow>
       getTimestamp now rnd c \<noteq> getTimestamp now rnd' c)
   \<and> (reachable c \<longrightarrow>
       (\<exists>b c1 a e. Set k v now rnd c = Inr (b, c1) \<and> items c1 k = Some a
          \<and> elems c1 a = Some e \<and> timestamp e = getTimestamp now rnd c
          \<and> minAge c1 = minAge c \<and> maxAge c1 = maxAge c))"
proof -
  have built: "minAge c0 = maxAge c0 \<and> getTimestamp now rnd c0 = now"
    if "New config = Inr c0" and "cfgMinAge config = 0"
    using that by (auto simp: New_def Let_def getTimestamp_def split: if_splits)
  have drawn: "getTimestamp now rnd c = now - rnd (maxAge c - minAge c)
       \<and> now - (maxAge c - minAge c) < getTimestamp now rnd c
       \<and> getTimestamp now rnd c \<le> now"
    if "minAge c \<noteq> maxAge c" and "0 \<le> rnd (maxAge c - minAge c)"
      and "rnd (maxAge c - minAge c) < maxAge c - minAge c"
    using that by (simp add: getTimestamp_def Let_def)
  have differ: "getTimestamp now rnd c \<noteq> getTimestamp now rnd' c"
    if "minAge c \<noteq> maxAge c" and "rnd (maxAge c - minAge c) \<noteq> rnd' (maxAge c - minAge c)"
    using that by (simp add: getTimestamp_def Let_def)
  have stored: "\<exists>b c1 a e. Set k v now rnd c = Inr (b, c1) \<and> items c1 k = Some a
          \<and> elems c1 a = Some e \<and> timestamp e = getTimestamp now rnd c
          \<and> minAge c1 = minAge c \<and> maxAge c1 = maxAge c"
    if "reachable c"
  proof -
    from that have "cache_inv c" by (rule reachable_inv)
    from Set_result [OF this, of k v now rnd] obtain b c1 a where
      "Set k v now rnd c = Inr (b, c1)" "items c1 k = Some a"
      "elems c1 a = Some \<lparr>key = k, val = v, timestamp = getTimestamp now rnd c\<rparr>"
      "minAge c1 = minAge c" "maxAge c1 = maxAge c"
      by blast
    then show ?thesis by simp
  qed
  from built drawn differ stored show ?thesis by blast
qed

text \<open>
  At \<open>configA\<close> (MinAge 0, MaxAge 10) the timestamp is \<open>now\<close> even for the
  generator that answers \<open>n - 1\<close>; at \<open>cacheB\<close> (minAge 1, maxAge 10) the same
  generator answers 8 for the bound 9 and the timestamp at time 100 is 92.
\<close>

theorem jitter_needs_minAge_below_maxAge_witness:
  "New configA = Inr cacheA0 \<and> cfgMinAge configA = 0
   \<and> minAge cacheA0 = maxAge cacheA0 \<and> getTimestamp 100 (\<lambda>n. n - 1) cacheA0 = 100
   \<and> reachable cacheB \<and> minAge cacheB \<noteq> maxAge cacheB
   \<and> getTimestamp 100 (\<lambda>n. n - 1) cacheB = 92 \<and> getTimestamp 100 (\<lambda>n. 0) cacheB = 100
   \<and> getTimestamp 100 (\<lambda>n. n - 1) cacheB \<noteq> getTimestamp 100 (\<lambda>n. 0) cacheB
   \<and> (\<exists>b c1 a e. Set 1 7 100 (\<lambda>n. n - 1) cacheB = Inr (b, c1) \<and> items c1 1 = Some a
          \<and> elems c1 a = Some e \<and> timestamp e = 92)"
proof -
  have n: "New configA = Inr cacheA0" and z: "cfgMinAge configA = 0"
    by (simp_all add: New_def configA_def cacheA0_def list_Init_def)
  have b: "minAge cacheB \<noteq> maxAge cacheB" "maxAge cacheB - minAge cacheB = 9"
    by (simp_all add: cacheB_def)
  note t = jitter_needs_minAge_below_maxAge
    [where config = configA and ?c0.0 = cacheA0 and now = 100 and rnd = "\<lambda>n. n - 1"
       and c = cacheB and rnd' = "\<lambda>n. 0" and k = 1 and v = 7]
  from t n z have one: "minAge cacheA0 = maxAge cacheA0"
    "getTimestamp 100 (\<lambda>n. n - 1) cacheA0 = 100"
    by simp_all
  from t b have two: "getTimestamp 100 (\<lambda>n. n - 1) cacheB = 92"
    "getTimestamp 100 (\<lambda>n. n - 1) cacheB \<noteq> getTimestamp 100 (\<lambda>n. 0) cacheB"
    by simp_all
  have three: "getTimestamp 100 (\<lambda>n. 0) cacheB = 100"
    by (simp add: getTimestamp_def cacheB_def)
  from t cacheB_reachable two(1)
  have four: "\<exists>b c1 a e. Set 1 7 100 (\<lambda>n. n - 1) cacheB = Inr (b, c1) \<and> items c1 1 = Some a
          \<and> elems c1 a = Some e \<and> timestamp e = 92"
    by auto
  from n z one cacheB_reachable b(1) two three four show ?thesis by simp
qed

text \<open>
  C2 as stated fails: in the cache constructed with MinAge 0 and MaxAge 10, two Sets at
  the instant 100 store the timestamp 100 in both entries, for all answers \<open>rnd\<close> and
  \<open>rnd'\<close> of the generator.
\<close>

theorem no_jitter_when_built_with_minAge_0:
  "New configA = Inr cacheA0
   \<and> cfgMinAge configA = 0 \<and> cfgMaxAge configA = 10
   \<and> (\<forall>rnd rnd'. \<exists>c1 c2.
         Set 1 7 100 rnd cacheA0 = Inr (False, c1)
         \<and> Set 2 8 100 rnd' c1 = Inr (False, c2)
         \<and> elems c2 0 = Some \<lparr>key = 1, val = 7, timestamp = 100\<rparr>
         \<and> elems c2 1 = Some \<lparr>key = 2, val = 8, timestamp = 100\<rparr>)"
  by (simp add: eval_defs configA_def cacheA0_def)

subsection \<open>C3: the index and the recency list\<close>

text \<open>
  C3. In every state reachable from a freshly constructed cache by \<open>Set\<close>, \<open>Get\<close>,
  \<open>Remove\<close>, \<open>EvictOldest\<close>, \<open>Clear\<close> and \<open>Resize\<close> (and by the setters and the
  steps of the sweep), the number of keys of the index map is the length of the recency
  list, which is \<open>Len()\<close>, and the keys of the index map are the keys stored in the
  entries of the list.
\<close>

theorem index_and_list_agree:
  assumes "reachable c"
  shows "card (dom (items c)) = length (evictionList c)
         \<and> int (length (evictionList c)) = Len c
         \<and> dom (items c) = set (entryKeys c)"
proof -
  from assms have "cache_inv c" by (rule reachable_inv)
  then have ok: "index_ok c" by (simp add: cache_inv_def)
  from ok have "dom (items c) = set (entryKeys c)" by (simp add: index_ok_def)
  with index_ok_card [OF ok] show ?thesis by (simp add: Len_def list_Len_def)
qed

text \<open>At \<open>cacheA\<close>: two keys in the index, two elements in the list, keys 2 and 1.\<close>

theorem index_and_list_agree_witness:
  "reachable cacheA
   \<and> card (dom (items cacheA)) = length (evictionList cacheA)
   \<and> int (length (evictionList cacheA)) = Len cacheA
   \<and> dom (items cacheA) = set (entryKeys cacheA)
   \<and> entryKeys cacheA = [2, 1]"
  using index_and_list_agree [OF cacheA_reachable] cacheA_reachable
  by (simp add: cacheA_def entryKeys_def)

subsection \<open>C4: the capacity bound\<close>

text \<open>
  C4. For a cache constructed with capacity \<open>c\<close> (\<open>New\<close> returns only when
  \<open>c > 0\<close>) and any run \<open>ops\<close> of \<open>Set\<close> operations on it, the first \<open>n\<close>
  operations of the run all return, for every \<open>n\<close>, and \<open>Len() \<le> c\<close> holds after
  them: the bound holds after each \<open>Set\<close>.
\<close>

theorem Len_within_capacity_after_Sets:
  assumes "New config = Inr c0"
  shows "\<exists>c. setAll (take n ops) c0 = Inr c
           \<and> Len c \<le> cfgCapacity config \<and> 0 < cfgCapacity config"
proof -
  from assms have inv: "cache_inv c0" by (rule New_inv)
  from assms have cap: "capacity c0 = cfgCapacity config"
    by (auto simp: New_def Let_def split: if_splits)
  from setAll_inv [OF inv, of "take n ops"] obtain c where
    "setAll (take n ops) c0 = Inr c" "cache_inv c" "capacity c = capacity c0" by blast
  with cap show ?thesis by (auto simp: cache_inv_def config_ok_def)
qed

text \<open>
  Three Sets of new keys on a cache of capacity 2: after two of them \<open>Len()\<close> is 2, and
  after the third, which evicts, it is 2 again.
\<close>

theorem Len_within_capacity_after_Sets_witness:
  "\<exists>c0 c2 c3. New configA = Inr c0
     \<and> setAll (take 2 [(1, 7, 100, \<lambda>n. 0), (2, 8, 101, \<lambda>n. 0), (3, 9, 102, \<lambda>n. 0)]) c0
         = Inr (c2 :: (nat, nat) Cache)
     \<and> Len c2 \<le> cfgCapacity configA \<and> Len c2 = 2
     \<and> setAll (take 3 [(1, 7, 100, \<lambda>n. 0), (2, 8, 101, \<lambda>n. 0), (3, 9, 102, \<lambda>n. 0)]) c0
         = Inr c3
     \<and> Len c3 \<le> cfgCapacity configA \<and> Len c3 = 2 \<and> evictions c3 = 1"
proof -
  let ?ops = "[(1::nat, 7::nat, 100::int, \<lambda>n::int. 0::int), (2, 8, 101, \<lambda>n. 0), (3, 9, 102, \<lambda>n. 0)]"
  obtain c0 :: "(nat, nat) Cache" where c0: "New configA = Inr c0"
    using cacheA_built by blast
  from Len_within_capacity_after_Sets [OF c0, of 2 ?ops]
  obtain c2 where c2: "setAll (take 2 ?ops) c0 = Inr c2" "Len c2 \<le> cfgCapacity configA"
    by blast
  from Len_within_capacity_after_Sets [OF c0, of 3 ?ops]
  obtain c3 where c3: "setAll (take 3 ?ops) c0 = Inr c3" "Len c3 \<le> cfgCapacity configA"
    by blast
  have "Len c2 = 2"
    using c0 c2(1) by (auto simp add: eval_defs configA_def split: if_splits)
  moreover have "Len c3 = 2 \<and> evictions c3 = 1"
    using c0 c3(1) by (auto simp add: eval_defs configA_def split: if_splits)
  ultimately show ?thesis using c0 c2 c3 by blast
qed

subsection \<open>C5: Get on an expired entry\<close>

text \<open>
  C5, amended. In a reachable cache, for a key present in the index with its entry: the
  entry is expired (\<open>maxAge > 0\<close> and \<open>time.Since(timestamp) > maxAge\<close>, the age
  being \<open>now - timestamp\<close> saturated at the bounds of a \<open>Duration\<close>) exactly when the
  test of \<open>Get\<close> fails; and that is \<open>maxAge > 0\<close> and \<open>now - timestamp > maxAge\<close>,
  with the plain difference, whenever \<open>maxAge\<close> is below the largest \<open>Duration\<close> or
  the difference fits a \<open>Duration\<close>. If the entry is expired, \<open>Get\<close> returns not
  found, removes the element from the list and the key from the index, adds one to
  \<open>gets\<close> and to \<open>misses\<close> and leaves \<open>hits\<close> alone, and invokes the expiration
  callback (when one is set) once, with the key and the value of the entry. If it is not
  expired, \<open>Get\<close> returns the value.
\<close>

theorem Get_on_expired_entry:
  assumes "reachable c" and "items c k = Some element" and "elems c element = Some entry"
  shows "(expired now c entry \<longleftrightarrow>
            \<not> (maxAge c = 0 \<or> Since now (timestamp entry) \<le> maxAge c))
    \<and> (maxAge c < maxDuration
         \<or> minDuration \<le> now - timestamp entry \<and> now - timestamp entry \<le> maxDuration \<longrightarrow>
         (expired now c entry \<longleftrightarrow> maxAge c > 0 \<and> now - timestamp entry > maxAge c))
    \<and> (expired now c entry \<longrightarrow>
         Get k now c =
           Inr (None, c\<lparr>gets := gets c + 1,
                        evictionList := remove1 element (evictionList c),
                        items := (items c)(k := None),
                        misses := misses c + 1,
                        calls := calls c @
                          (if onExpiration c then [ExpirationCall k (val entry)] else [])\<rparr>)
         \<and> element \<in> set (evictionList c)
         \<and> element \<notin> set (remove1 element (evictionList c)))
    \<and> (\<not> expired now c entry \<longrightarrow> (\<exists>c'. Get k now c = Inr (Some (val entry), c')))"
proof -
  from assms(1) have inv: "cache_inv c" by (rule reachable_inv)
  then have ok: "index_ok c" and age: "0 \<le> maxAge c"
    by (auto simp: cache_inv_def config_ok_def)
  from index_okD_items [OF ok assms(2)] assms(3) have
    el: "element \<in> set (evictionList c)" and ke: "key entry = k" by auto
  have test: "expired now c entry \<longleftrightarrow>
                \<not> (maxAge c = 0 \<or> Since now (timestamp entry) \<le> maxAge c)"
    using age by (auto simp: expired_def)
  have plain: "expired now c entry \<longleftrightarrow> maxAge c > 0 \<and> now - timestamp entry > maxAge c"
    if "maxAge c < maxDuration
         \<or> minDuration \<le> now - timestamp entry \<and> now - timestamp entry \<le> maxDuration"
    using that age
    by (auto simp: expired_def Since_def Let_def maxDuration_def minDuration_def)
  have gone: "element \<notin> set (remove1 element (evictionList c))"
    using index_okD_distinct [OF ok] by simp
  have stale: "Get k now c =
           Inr (None, c\<lparr>gets := gets c + 1,
                        evictionList := remove1 element (evictionList c),
                        items := (items c)(k := None),
                        misses := misses c + 1,
                        calls := calls c @
                          (if onExpiration c then [ExpirationCall k (val entry)] else [])\<rparr>)"
    if "expired now c entry"
    using Get_stale [OF assms(2,3), of now] that el ke by (simp add: test list_Remove_def)
  have fresh: "\<exists>c'. Get k now c = Inr (Some (val entry), c')" if "\<not> expired now c entry"
    using Get_hit [OF assms(2,3), of now] that by (simp add: test)
  from test plain stale fresh el gone show ?thesis by blast
qed

text \<open>
  At \<open>cacheA\<close> (maxAge 10), the entry of key 1 has timestamp 100: \<open>Get\<close> at time 200
  finds it expired, \<open>Get\<close> at time 105 does not.
\<close>

theorem Get_on_expired_entry_witness:
  "reachable cacheA \<and> items cacheA 1 = Some 0
   \<and> elems cacheA 0 = Some \<lparr>key = 1, val = 7, timestamp = 100\<rparr>
   \<and> maxAge cacheA < maxDuration \<and> 0 < maxAge cacheA \<and> (200::int) - 100 > maxAge cacheA
   \<and> expired 200 cacheA \<lparr>key = 1, val = 7, timestamp = 100\<rparr>
   \<and> Get 1 200 cacheA =
       Inr (None, cacheA\<lparr>gets := 1, evictionList := [1], items := [2 \<mapsto> 1],
                         misses := 1, calls := [ExpirationCall 1 7]\<rparr>)
   \<and> \<not> expired 105 cacheA \<lparr>key = 1, val = 7, timestamp = 100\<rparr>
   \<and> (\<exists>c'. Get 1 105 cacheA = Inr (Some 7, c'))"
proof -
  have i: "items cacheA 1 = Some 0"
    and e: "elems cacheA 0 = Some \<lparr>key = 1, val = 7, timestamp = 100\<rparr>"
    by (simp_all add: cacheA_def)
  have b: "maxAge cacheA < maxDuration" "0 < maxAge cacheA" "(200::int) - 100 > maxAge cacheA"
    "\<not> (0 < maxAge cacheA \<and> (105::int) - 100 > maxAge cacheA)"
    by (simp_all add: cacheA_def maxDuration_def)
  note t200 = Get_on_expired_entry [OF cacheA_reachable i e, of 200]
  note t105 = Get_on_expired_entry [OF cacheA_reachable i e, of 105]
  have x: "expired 200 cacheA \<lparr>key = 1, val = 7, timestamp = 100\<rparr>"
    and y: "\<not> expired 105 cacheA \<lparr>key = 1, val = 7, timestamp = 100\<rparr>"
    by (simp_all add: cacheA_def expired_def Since_def maxDuration_def minDuration_def)
  have m: "(items cacheA)(1 := None) = [2 \<mapsto> 1]"
    by (auto simp: cacheA_def)
  from t200 t105 x y
  have "Get 1 200 cacheA =
       Inr (None, cacheA\<lparr>gets := gets cacheA + 1,
                         evictionList := remove1 0 (evictionList cacheA),
                         items := (items cacheA)(1 := None),
                         misses := misses cacheA + 1,
                         calls := calls cacheA @
                           (if onExpiration cacheA then [ExpirationCall 1 (val \<lparr>key = 1, val = 7, timestamp = 100\<rparr>)] else [])\<rparr>)"
    and g2: "\<exists>c'. Get 1 105 cacheA = Inr (Some 7, c')"
    by simp_all
  then have "Get 1 200 cacheA =
       Inr (None, cacheA\<lparr>gets := 1, evictionList := [1], items := [2 \<mapsto> 1],
                         misses := 1, calls := [ExpirationCall 1 7]\<rparr>)"
    unfolding m by (simp add: cacheA_def)
  with cacheA_reachable i e b(1-3) x y g2 show ?thesis by simp
qed

text \<open>
  C5 as stated, with the plain difference, fails: in the cache constructed with MinAge 1
  and the largest MaxAge, \<open>2 ^ 63 - 1\<close>, \<open>Set(1, 7)\<close> at time 100 with the draw
  \<open>2 ^ 63 - 3\<close> stores the timestamp \<open>103 - 2 ^ 63\<close>. At time 103 the difference
  \<open>now - timestamp\<close> is \<open>2 ^ 63\<close>, more than \<open>maxAge\<close>, but \<open>time.Since\<close> gives
  the largest \<open>Duration\<close>, which is \<open>maxAge\<close>: \<open>Get(1)\<close> finds the entry, returns its
  value, counts a hit and deletes nothing.
\<close>

theorem saturated_age_is_not_expired:
  "New configD = Inr cacheD0
   \<and> maxAge cacheD0 - minAge cacheD0 = 2 ^ 63 - 2
   \<and> Set 1 7 100 (\<lambda>n. n - 1) cacheD0 = Inr (False, cacheD)
   \<and> items cacheD 1 = Some 0
   \<and> elems cacheD 0 = Some \<lparr>key = 1, val = 7, timestamp = 103 - 2 ^ 63\<rparr>
   \<and> maxAge cacheD > 0
   \<and> 103 - (103 - 2 ^ 63) > maxAge cacheD
   \<and> Since 103 (103 - 2 ^ 63) = maxAge cacheD
   \<and> Get 1 103 cacheD = Inr (Some 7, cacheD\<lparr>gets := 1, hits := 1\<rparr>)"
  by (simp add: eval_defs configD_def cacheD0_def cacheD_def)

subsection \<open>C6: rejected reconfigurations\<close>

text \<open>
  C6. In every cache state, \<open>Resize(n)\<close> with \<open>n \<le> 0\<close>, \<open>SetMaxAge(d)\<close> with
  \<open>d < 0\<close> or \<open>d < minAge\<close>, and \<open>SetMinAge(d')\<close> with \<open>d' < 0\<close> or
  \<open>d' > maxAge\<close> each return an error and the cache they were given, unchanged in
  every field.
\<close>

theorem invalid_reconfiguration_is_rejected:
  "(n \<le> 0 \<longrightarrow> (\<exists>e. Resize n c = Inr (Some e, c)))
   \<and> (d < 0 \<or> d < minAge c \<longrightarrow> (\<exists>e. SetMaxAge d c = (Some e, c)))
   \<and> (d' < 0 \<or> d' > maxAge c \<longrightarrow> (\<exists>e. SetMinAge d' c = (Some e, c)))"
  by (simp add: Resize_def SetMaxAge_def SetMinAge_def)

text \<open>At \<open>cacheA\<close> (minAge 10, maxAge 10), each of the rejected arguments.\<close>

theorem invalid_reconfiguration_is_rejected_witness:
  "(0::int) \<le> 0 \<and> (\<exists>e. Resize 0 cacheA = Inr (Some e, cacheA))
   \<and> (5::int) < minAge cacheA \<and> (\<exists>e. SetMaxAge 5 cacheA = (Some e, cacheA))
   \<and> (11::int) > maxAge cacheA \<and> (\<exists>e. SetMinAge 11 cacheA = (Some e, cacheA))
   \<and> (\<exists>e. Resize (- 3) cacheA = Inr (Some e, cacheA))
   \<and> (\<exists>e. SetMaxAge (- 1) cacheA = (Some e, cacheA))
   \<and> (\<exists>e. SetMinAge (- 1) cacheA = (Some e, cacheA))"
  using invalid_reconfiguration_is_rejected [of 0 cacheA 5 11]
    invalid_reconfiguration_is_rejected [of "- 3" cacheA "- 1" "- 1"]
  by (simp add: cacheA_def)

subsection \<open>C7: Set at capacity\<close>

text \<open>
  C7. In a reachable cache with \<open>Len()\<close> equal to its capacity, \<open>Set\<close> on a key that is
  not present returns true; the list has a back element, whose key is the first of
  \<open>OrderedKeys()\<close> before the call; after the call the new key is in the index, at a new
  element at the front of the list, the back element and its key are gone and nothing
  else is, \<open>evictions\<close> is one more, and the eviction callback (when one is set) has
  been invoked once with the removed key and value. And for every \<open>Set\<close> on a reachable
  cache: it returns true exactly when \<open>evictions\<close> went up by one, and when it returns
  false no eviction happened: \<open>evictions\<close> and the calls are as before and no key left
  the index.
\<close>

theorem Set_at_capacity_evicts_least_recent:
  assumes "reachable c"
  shows "(Len c = capacity c \<and> items c k = None \<longrightarrow>
           (\<exists>oldest oe rest.
              list_Back (evictionList c) = Some oldest
              \<and> elems c oldest = Some oe
              \<and> items c (key oe) = Some oldest
              \<and> OrderedKeys c = Inr (Some (key oe) # rest, c)
              \<and> Set k v now rnd c =
                  Inr (True,
                       c\<lparr>sets := sets c + 1,
                         elems := (elems c)(nextElem c \<mapsto>
                            \<lparr>key = k, val = v, timestamp = getTimestamp now rnd c\<rparr>),
                         nextElem := nextElem c + 1,
                         evictionList := nextElem c # butlast (evictionList c),
                         items := ((items c)(k \<mapsto> nextElem c))(key oe := None),
                         evictions := evictions c + 1,
                         calls := calls c @
                           (if onEviction c then [EvictionCall (key oe) (val oe)] else [])\<rparr>)))
    \<and> (\<exists>b c1. Set k v now rnd c = Inr (b, c1)
          \<and> (b \<longleftrightarrow> evictions c1 = evictions c + 1)
          \<and> (\<not> b \<longrightarrow> evictions c1 = evictions c \<and> calls c1 = calls c
                     \<and> dom (items c) \<subseteq> dom (items c1)))"
proof -
  from assms have inv: "cache_inv c" by (rule reachable_inv)
  then have ok: "index_ok c" and cfg: "config_ok c"
    by (simp_all add: cache_inv_def)
  have full: "\<exists>oldest oe rest.
              list_Back (evictionList c) = Some oldest
              \<and> elems c oldest = Some oe
              \<and> items c (key oe) = Some oldest
              \<and> OrderedKeys c = Inr (Some (key oe) # rest, c)
              \<and> Set k v now rnd c =
                  Inr (True,
                       c\<lparr>sets := sets c + 1,
                         elems := (elems c)(nextElem c \<mapsto>
                            \<lparr>key = k, val = v, timestamp = getTimestamp now rnd c\<rparr>),
                         nextElem := nextElem c + 1,
                         evictionList := nextElem c # butlast (evictionList c),
                         items := ((items c)(k \<mapsto> nextElem c))(key oe := None),
                         evictions := evictions c + 1,
                         calls := calls c @
                           (if onEviction c then [EvictionCall (key oe) (val oe)] else [])\<rparr>)"
    if at_cap: "Len c = capacity c" and new: "items c k = None"
  proof -
    from at_cap cfg have ne: "evictionList c \<noteq> []"
      by (auto simp: Len_def list_Len_def config_ok_def)
    from last_entry [OF ok ne] obtain oe where
      oe: "elems c (last (evictionList c)) = Some oe"
        "items c (key oe) = Some (last (evictionList c))" by blast
    have bk: "list_Back (evictionList c) = Some (last (evictionList c))"
      using ne by (simp add: list_Back_def)
    have "entryKeys c = map (\<lambda>a. key (the (elems c a))) (butlast (evictionList c) @ [last (evictionList c)])"
      using ne by (simp add: entryKeys_map [OF ok])
    then have "rev (entryKeys c) = key oe # rev (map (\<lambda>a. key (the (elems c a))) (butlast (evictionList c)))"
      using oe(1) by simp
    then have ord: "OrderedKeys c =
        Inr (Some (key oe) # map Some (rev (map (\<lambda>a. key (the (elems c a))) (butlast (evictionList c)))), c)"
      by (simp add: OrderedKeys_ok [OF ok])
    from at_cap have "Len c + 1 > capacity c" by simp
    from Set_new_evict [OF new this ok ne oe(1), of v now rnd] bk oe ord
    show ?thesis by blast
  qed
  from full Set_result [OF inv, of k v now rnd] show ?thesis by blast
qed

text \<open>
  At \<open>cacheA\<close>, full with the keys 1 (oldest) and 2: \<open>Set(3, 9)\<close> evicts key 1 and
  returns true; \<open>Set(2, 5)\<close>, on a present key, evicts nothing and returns false.
\<close>

theorem Set_at_capacity_evicts_least_recent_witness:
  "reachable cacheA \<and> Len cacheA = capacity cacheA \<and> items cacheA 3 = None
   \<and> list_Back (evictionList cacheA) = Some 0
   \<and> elems cacheA 0 = Some \<lparr>key = 1, val = 7, timestamp = 100\<rparr>
   \<and> OrderedKeys cacheA = Inr ([Some 1, Some 2], cacheA)
   \<and> Set 3 9 102 (\<lambda>n. 0) cacheA =
       Inr (True,
            cacheA\<lparr>sets := 3,
                    elems := (elems cacheA)(2 \<mapsto> \<lparr>key = 3, val = 9, timestamp = 102\<rparr>),
                    nextElem := 3,
                    evictionList := [2, 1],
                    items := [2 \<mapsto> 1, 3 \<mapsto> 2],
                    evictions := 1,
                    calls := [EvictionCall 1 7]\<rparr>)
   \<and> Set 2 5 102 (\<lambda>n. 0) cacheA =
       Inr (False,
            cacheA\<lparr>sets := 3,
                    evictionList := [1, 0],
                    elems := (elems cacheA)(1 \<mapsto> \<lparr>key = 2, val = 5, timestamp = 102\<rparr>)\<rparr>)"
proof -
  have h: "Len cacheA = capacity cacheA" "items cacheA 3 = None"
    by (simp_all add: cacheA_def Len_def list_Len_def)
  have m: "(items cacheA)(3 \<mapsto> 2, 1 := None) = [2 \<mapsto> 1, 3 \<mapsto> 2]"
    by (auto simp: cacheA_def)
  from Set_at_capacity_evicts_least_recent [OF cacheA_reachable, of 3 9 102 "\<lambda>n. 0"] h
  obtain oldest oe rest where
    r: "list_Back (evictionList cacheA) = Some oldest" "elems cacheA oldest = Some oe"
      "OrderedKeys cacheA = Inr (Some (key oe) # rest, cacheA)"
      "Set 3 9 102 (\<lambda>n. 0) cacheA =
         Inr (True,
              cacheA\<lparr>sets := sets cacheA + 1,
                      elems := (elems cacheA)(nextElem cacheA \<mapsto>
                         \<lparr>key = 3, val = 9, timestamp = getTimestamp 102 (\<lambda>n. 0) cacheA\<rparr>),
                      nextElem := nextElem cacheA + 1,
                      evictionList := nextElem cacheA # butlast (evictionList cacheA),
                      items := ((items cacheA)(3 \<mapsto> nextElem cacheA))(key oe := None),
                      evictions := evictions cacheA + 1,
                      calls := calls cacheA @
                        (if onEviction cacheA then [EvictionCall (key oe) (val oe)] else [])\<rparr>)"
    by blast
  from r(1) have o: "oldest = 0" by (simp add: cacheA_def list_Back_def)
  with r(2) have oe: "oe = \<lparr>key = 1, val = 7, timestamp = 100\<rparr>" by (simp add: cacheA_def)
  have ord: "OrderedKeys cacheA = Inr ([Some 1, Some 2], cacheA)"
    by (simp add: OrderedKeys_def cacheA_def Let_def)
  have s3: "Set 3 9 102 (\<lambda>n. 0) cacheA =
       Inr (True,
            cacheA\<lparr>sets := 3,
                    elems := (elems cacheA)(2 \<mapsto> \<lparr>key = 3, val = 9, timestamp = 102\<rparr>),
                    nextElem := 3,
                    evictionList := [2, 1],
                    items := [2 \<mapsto> 1, 3 \<mapsto> 2],
                    evictions := 1,
                    calls := [EvictionCall 1 7]\<rparr>)"
    using r(4) m unfolding oe by (simp add: cacheA_def getTimestamp_def)
  have s2: "Set 2 5 102 (\<lambda>n. 0) cacheA =
       Inr (False,
            cacheA\<lparr>sets := 3,
                    evictionList := [1, 0],
                    elems := (elems cacheA)(1 \<mapsto> \<lparr>key = 2, val = 5, timestamp = 102\<rparr>)\<rparr>)"
    by (simp add: cacheA_def Set_def Let_def getTimestamp_def list_MoveToFront_def)
  from cacheA_reachable h r(1,2) ord s3 s2 show ?thesis
    unfolding o oe by simp
qed

subsection \<open>C8: Set, then Get\<close>

text \<open>
  C8, amended. In a reachable cache, \<open>Set(k, v)\<close> at time \<open>now\<close> followed by
  \<open>Get(k)\<close> at time \<open>now'\<close>, with no operation in between, both return, and
  \<open>Get\<close> returns \<open>(v, true)\<close> provided \<open>maxAge\<close> is 0 or \<open>now'\<close> minus the
  timestamp that \<open>Set\<close> assigned (\<open>now\<close> minus the jitter drawn) is at most
  \<open>maxAge\<close>: the time elapsed since the \<open>Set\<close> plus the jitter is at most
  \<open>maxAge\<close>. When the generator keeps its contract, that holds whenever at most
  \<open>minAge\<close> has elapsed since the \<open>Set\<close>; with \<open>minAge = maxAge\<close> there is no
  jitter and this is: \<open>maxAge\<close> has not yet elapsed since the \<open>Set\<close>. Exactly,
  \<open>Get\<close> returns \<open>(v, true)\<close> when \<open>maxAge\<close> is 0 or \<open>time.Since\<close> of that
  timestamp (the difference, saturated at the bounds of a \<open>Duration\<close>) is at most
  \<open>maxAge\<close>, and not found otherwise.
\<close>

theorem Set_then_Get_roundtrip:
  assumes "reachable c"
  shows "(\<exists>b c1 r c2. Set k v now rnd c = Inr (b, c1) \<and> Get k now' c1 = Inr (r, c2)
            \<and> (maxAge c = 0 \<or> now' - getTimestamp now rnd c \<le> maxAge c \<longrightarrow> r = Some v)
            \<and> (r = Some v \<longleftrightarrow>
                  maxAge c = 0 \<or> Since now' (getTimestamp now rnd c) \<le> maxAge c)
            \<and> (r \<noteq> Some v \<longrightarrow> r = None))
    \<and> ((minAge c = maxAge c
          \<or> 0 \<le> rnd (maxAge c - minAge c) \<and> rnd (maxAge c - minAge c) < maxAge c - minAge c)
        \<and> now' - now \<le> minAge c
        \<longrightarrow> now' - getTimestamp now rnd c \<le> maxAge c)
    \<and> (minAge c = maxAge c \<longrightarrow> getTimestamp now rnd c = now)"
proof -
  from assms have inv: "cache_inv c" by (rule reachable_inv)
  then have cfg: "config_ok c" by (simp add: cache_inv_def)
  then have age: "0 \<le> maxAge c" by (simp add: config_ok_def)
  let ?ts = "getTimestamp now rnd c"
  from Set_result [OF inv, of k v now rnd] obtain b c1 a where
    s: "Set k v now rnd c = Inr (b, c1)" "items c1 k = Some a"
      "elems c1 a = Some \<lparr>key = k, val = v, timestamp = ?ts\<rparr>" "maxAge c1 = maxAge c"
    by blast
  have sat: "Since now' ?ts \<le> maxAge c" if "now' - ?ts \<le> maxAge c"
    using that age by (simp add: Since_def Let_def maxDuration_def minDuration_def)
  have round: "\<exists>r c2. Get k now' c1 = Inr (r, c2)
            \<and> (r = Some v \<longleftrightarrow> maxAge c = 0 \<or> Since now' ?ts \<le> maxAge c)
            \<and> (r \<noteq> Some v \<longrightarrow> r = None)"
  proof (cases "maxAge c = 0 \<or> Since now' ?ts \<le> maxAge c")
    case True
    with Get_hit [OF s(2,3), of now'] s(4) show ?thesis by simp
  next
    case False
    with Get_stale [OF s(2,3), of now'] s(4) show ?thesis by simp
  qed
  then obtain r c2 where
    g: "Get k now' c1 = Inr (r, c2)"
      "r = Some v \<longleftrightarrow> maxAge c = 0 \<or> Since now' ?ts \<le> maxAge c"
      "r \<noteq> Some v \<longrightarrow> r = None"
    by blast
  from g(2) sat have suff: "maxAge c = 0 \<or> now' - ?ts \<le> maxAge c \<longrightarrow> r = Some v"
    by blast
  have enough: "now' - ?ts \<le> maxAge c"
    if "minAge c = maxAge c
          \<or> 0 \<le> rnd (maxAge c - minAge c) \<and> rnd (maxAge c - minAge c) < maxAge c - minAge c"
      and "now' - now \<le> minAge c"
    using that by (auto simp: getTimestamp_def Let_def)
  have off: "?ts = now" if "minAge c = maxAge c"
    using that by (simp add: getTimestamp_def)
  from s(1) g suff enough off show ?thesis by blast
qed

text \<open>
  At \<open>cacheB\<close> (minAge 1, maxAge 10), \<open>Set\<close> at time 100 with the draw 8 stores the
  timestamp 92: \<open>Get\<close> at time 101 (within \<open>minAge\<close>) finds the value; \<open>Get\<close> at
  time 103 does not.
\<close>

theorem Set_then_Get_roundtrip_witness:
  "reachable cacheB \<and> minAge cacheB = 1 \<and> maxAge cacheB = 10
   \<and> getTimestamp 100 (\<lambda>n. 8) cacheB = 92
   \<and> (101::int) - 100 \<le> minAge cacheB \<and> (101::int) - 92 \<le> maxAge cacheB
   \<and> (\<exists>b c1 c2. Set 1 7 100 (\<lambda>n. 8) cacheB = Inr (b, c1) \<and> Get 1 101 c1 = Inr (Some 7, c2))
   \<and> Since 103 92 = 11
   \<and> (\<exists>b c1 c2. Set 1 7 100 (\<lambda>n. 8) cacheB = Inr (b, c1) \<and> Get 1 103 c1 = Inr (None, c2))"
proof -
  have a: "minAge cacheB = 1" "maxAge cacheB = 10" "getTimestamp 100 (\<lambda>n. 8) cacheB = 92"
    by (simp_all add: cacheB_def getTimestamp_def)
  have d: "Since 103 92 = 11" "Since 101 92 = 9"
    by (simp_all add: Since_def maxDuration_def minDuration_def)
  from Set_then_Get_roundtrip [OF cacheB_reachable, of 1 7 100 "\<lambda>n. 8" 101] a d
  have one: "\<exists>b c1 c2. Set 1 7 100 (\<lambda>n. 8) cacheB = Inr (b, c1) \<and> Get 1 101 c1 = Inr (Some 7, c2)"
    by auto
  from Set_then_Get_roundtrip [OF cacheB_reachable, of 1 7 100 "\<lambda>n. 8" 103] a d
  have two: "\<exists>b c1 c2. Set 1 7 100 (\<lambda>n. 8) cacheB = Inr (b, c1) \<and> Get 1 103 c1 = Inr (None, c2)"
    by auto
  from cacheB_reachable a d(1) one two show ?thesis by simp
qed

text \<open>
  C8 as stated fails: in the cache constructed with MinAge 1 and MaxAge 10, \<open>Set(1, 7)\<close>
  at time 100, for which the generator answers 8 (under its bound 9), followed by
  \<open>Get(1)\<close> at time 103, when 3 of the 10 nanoseconds of \<open>maxAge\<close> have elapsed,
  returns not found: the entry's timestamp is 92 and its age 11.
\<close>

theorem roundtrip_fails_under_jitter:
  "New configB = Inr cacheB
   \<and> minAge cacheB = 1 \<and> maxAge cacheB = 10
   \<and> (0::int) \<le> 8 \<and> 8 < maxAge cacheB - minAge cacheB
   \<and> Set 1 7 100 (\<lambda>n. 8) cacheB =
       Inr (False,
            cacheB\<lparr>sets := 1,
                    elems := [0 \<mapsto> \<lparr>key = 1, val = 7, timestamp = 92\<rparr>],
                    nextElem := 1, evictionList := [0], items := [1 \<mapsto> 0]\<rparr>)
   \<and> (103::int) - 100 \<le> maxAge cacheB
   \<and> Get 1 103
         (cacheB\<lparr>sets := 1,
                 elems := [0 \<mapsto> \<lparr>key = 1, val = 7, timestamp = 92\<rparr>],
                 nextElem := 1, evictionList := [0], items := [1 \<mapsto> 0]\<rparr>) =
       Inr (None,
            cacheB\<lparr>sets := 1, gets := 1, misses := 1,
                    elems := [0 \<mapsto> \<lparr>key = 1, val = 7, timestamp = 92\<rparr>],
                    nextElem := 1, evictionList := [], items := Map.empty,
                    calls := [ExpirationCall 1 7]\<rparr>)"
  by (simp add: eval_defs configB_def cacheB_def)

subsection \<open>C9: Get promotes, Peek and Has only read\<close>

text \<open>
  C9. In a reachable cache, \<open>Get\<close> on a present key whose entry is not expired returns
  its value and moves its element to the front of the list, the other elements keeping
  their order; nothing else changes but \<open>gets\<close> and \<open>hits\<close>. \<open>Peek\<close> and \<open>Has\<close>,
  on any key, return their result and the cache they were given: the list, the index,
  the entries (expired or not) and every counter are unchanged.
\<close>

theorem Get_promotes_Peek_and_Has_read_only:
  assumes "reachable c"
  shows "(items c k = Some element \<and> elems c element = Some entry \<and> \<not> expired now c entry \<longrightarrow>
           element \<in> set (evictionList c)
           \<and> Get k now c =
               Inr (Some (val entry),
                    c\<lparr>gets := gets c + 1,
                      evictionList := element # remove1 element (evictionList c),
                      hits := hits c + 1\<rparr>))
    \<and> Peek k' c = Inr (map_option val (Option.bind (items c k') (elems c)), c)
    \<and> Has k' c = Inr (items c k' \<noteq> None, c)"
proof -
  from assms have inv: "cache_inv c" by (rule reachable_inv)
  then have ok: "index_ok c" and age: "0 \<le> maxAge c"
    by (auto simp: cache_inv_def config_ok_def)
  have promote: "element \<in> set (evictionList c)
           \<and> Get k now c =
               Inr (Some (val entry),
                    c\<lparr>gets := gets c + 1,
                      evictionList := element # remove1 element (evictionList c),
                      hits := hits c + 1\<rparr>)"
    if k: "items c k = Some element" and e: "elems c element = Some entry"
      and fresh: "\<not> expired now c entry"
  proof -
    from index_okD_items [OF ok k] have el: "element \<in> set (evictionList c)" by simp
    from fresh age have "maxAge c = 0 \<or> Since now (timestamp entry) \<le> maxAge c"
      by (auto simp: expired_def)
    from Get_hit [OF k e this] el show ?thesis
      by (simp add: list_MoveToFront_def)
  qed
  have peek: "Peek k' c = Inr (map_option val (Option.bind (items c k') (elems c)), c)"
  proof (cases "items c k'")
    case None
    then show ?thesis by (simp add: Peek_def)
  next
    case (Some a)
    from index_okD_items [OF ok Some] obtain e where "elems c a = Some e" by auto
    with Some show ?thesis by (simp add: Peek_def)
  qed
  have has: "Has k' c = Inr (items c k' \<noteq> None, c)"
    by (simp add: Has_def split: option.split)
  from promote peek has show ?thesis by blast
qed

text \<open>
  At \<open>cacheA\<close>, whose list is \<open>[1, 0]\<close> (the element of key 2 in front):
  \<open>Get(1)\<close> at time 105 makes it \<open>[0, 1]\<close>; \<open>Peek\<close> and \<open>Has\<close> on a present
  and on an absent key return \<open>cacheA\<close> itself.
\<close>

theorem Get_promotes_Peek_and_Has_read_only_witness:
  "reachable cacheA \<and> items cacheA 1 = Some 0
   \<and> elems cacheA 0 = Some \<lparr>key = 1, val = 7, timestamp = 100\<rparr>
   \<and> \<not> expired 105 cacheA \<lparr>key = 1, val = 7, timestamp = 100\<rparr>
   \<and> evictionList cacheA = [1, 0]
   \<and> Get 1 105 cacheA = Inr (Some 7, cacheA\<lparr>gets := 1, evictionList := [0, 1], hits := 1\<rparr>)
   \<and> Peek 1 cacheA = Inr (Some 7, cacheA) \<and> Has 1 cacheA = Inr (True, cacheA)
   \<and> Peek 3 cacheA = Inr (None, cacheA) \<and> Has 3 cacheA = Inr (False, cacheA)"
proof -
  have i: "items cacheA 1 = Some 0"
    and e: "elems cacheA 0 = Some \<lparr>key = 1, val = 7, timestamp = 100\<rparr>"
    and l: "evictionList cacheA = [1, 0]"
    by (simp_all add: cacheA_def)
  have y: "\<not> expired 105 cacheA \<lparr>key = 1, val = 7, timestamp = 100\<rparr>"
    by (simp add: cacheA_def expired_def Since_def maxDuration_def minDuration_def)
  from Get_promotes_Peek_and_Has_read_only [OF cacheA_reachable, of 1 0 _ 105 1] i e y
  have g: "Get 1 105 cacheA =
             Inr (Some (val \<lparr>key = 1::nat, val = 7::nat, timestamp = 100\<rparr>),
                  cacheA\<lparr>gets := gets cacheA + 1,
                          evictionList := 0 # remove1 0 (evictionList cacheA),
                          hits := hits cacheA + 1\<rparr>)"
    and p1: "Peek 1 cacheA = Inr (map_option val (Option.bind (items cacheA 1) (elems cacheA)), cacheA)"
    and h1: "Has 1 cacheA = Inr (items cacheA 1 \<noteq> None, cacheA)"
    by simp_all
  from Get_promotes_Peek_and_Has_read_only [OF cacheA_reachable, of 1 0 _ 105 3]
  have p3: "Peek 3 cacheA = Inr (map_option val (Option.bind (items cacheA 3) (elems cacheA)), cacheA)"
    and h3: "Has 3 cacheA = Inr (items cacheA 3 \<noteq> None, cacheA)"
    by simp_all
  have g': "Get 1 105 cacheA = Inr (Some 7, cacheA\<lparr>gets := 1, evictionList := [0, 1], hits := 1\<rparr>)"
    using g by (simp add: cacheA_def)
  have p1': "Peek 1 cacheA = Inr (Some 7, cacheA)" and h1': "Has 1 cacheA = Inr (True, cacheA)"
    using p1 h1 by (simp_all add: cacheA_def)
  have p3': "Peek 3 cacheA = Inr (None, cacheA)" and h3': "Has 3 cacheA = Inr (False, cacheA)"
    using p3 h3 by (simp_all add: cacheA_def)
  from cacheA_reachable i e y l g' p1' h1' p3' h3' show ?thesis by simp
qed

subsection \<open>C10: Stats.Delta\<close>

text \<open>
  C10. For all Stats values \<open>s\<close> and \<open>p\<close>, \<open>s.Delta(p)\<close> keeps the gauges Capacity and
  Count of \<open>s\<close>, and each of the counters Sets, Gets, Hits, Misses and Evictions is the
  field of \<open>s\<close> minus the field of \<open>p\<close>, in Go's \<open>int64\<close> arithmetic (read as
  signed numbers: the exact difference wrapped into 64 bits, lemma
  \<open>int64_sub_signed\<close>).
\<close>

theorem Delta_fields:
  "Capacity (Delta s p) = Capacity s \<and> Count (Delta s p) = Count s
   \<and> Sets (Delta s p) = Sets s - Sets p
   \<and> Gets (Delta s p) = Gets s - Gets p
   \<and> Hits (Delta s p) = Hits s - Hits p
   \<and> Misses (Delta s p) = Misses s - Misses p
   \<and> Evictions (Delta s p) = Evictions s - Evictions p"
  by (simp add: Delta_def)

end
